theory Spec2Isabelle
  imports Complex_Main "HOL-Library.Word" "HOL-Library.Sublist" "HOL-Library.Log_Nat"
begin

unbundle bit_operations_syntax

section \<open>The model\<close>

subsection \<open>Machine arithmetic\<close>

text \<open>
  Arithmetic on \<open>int\<close> and \<open>int32_t\<close> is 32-bit arithmetic: a result outside the range,
  left open by the language, is taken modulo \<open>2 ^ 32\<close> into the range, as the machine
  computes it.
\<close>

definition wrap32 :: "int \<Rightarrow> int" where
  "wrap32 x = sint (word_of_int x :: 32 word)"

text \<open>
  Arithmetic on \<open>double\<close> is binary64 arithmetic: the result of an operation is the exact
  result rounded to the nearest number with a significand of 53 bits, ties to the even
  significand. \<open>pow2 e\<close> is the power of two with exponent \<open>e\<close>, \<open>expo x\<close> the exponent
  of a positive number (\<open>pow2 (expo x) \<le> x < pow2 (expo x + 1)\<close>, computed from the bit
  length of an integer), and \<open>b64\<close> the rounding; below the smallest normal exponent
  \<open>-1022\<close> the spacing of the numbers stays that of the subnormal numbers. A result of
  magnitude \<open>2 ^ 1024\<close> or more, infinite in binary64, does not arise from the 32-bit
  integers that the program converts, and is not modelled.
\<close>

definition pow2 :: "int \<Rightarrow> real" where
  "pow2 e = (if 0 \<le> e then 2 ^ nat e else 1 / 2 ^ nat (- e))"

definition expo :: "real \<Rightarrow> int" where
  "expo x = (if 1 \<le> x then bitlen \<lfloor>x\<rfloor> - 1 else - bitlen (\<lceil>1 / x\<rceil> - 1))"

definition round_even :: "real \<Rightarrow> int" where
  "round_even y =
     (let f = \<lfloor>y\<rfloor>; r = y - of_int f
      in if r < 1 / 2 then f else if 1 / 2 < r then f + 1 else if even f then f else f + 1)"

definition b64 :: "real \<Rightarrow> real" where
  "b64 x =
     (if x = 0 then 0
      else let u = pow2 (max (expo \<bar>x\<bar>) (- 1022) - 52)
           in of_int (round_even (x / u)) * u)"

text \<open>
  The conversion of an integer to \<open>double\<close>.
\<close>

definition to_double :: "int \<Rightarrow> real" where
  "to_double i = b64 (real_of_int i)"

text \<open>
  Where the program divides by a number that can be zero, the result can be an infinity
  or no number at all. The divisor is a converted integer, so a zero divisor is the
  positive zero; an infinity or a \<open>NaN\<close> stays or turns into \<open>NaN\<close> under addition, and a
  comparison with \<open>NaN\<close> is false.
\<close>

datatype double = Finite real | PInf | NInf | NaN

definition ddiv :: "real \<Rightarrow> real \<Rightarrow> double" where
  "ddiv a b =
     (if b = 0 then (if a = 0 then NaN else if 0 < a then PInf else NInf)
      else Finite (b64 (a / b)))"

fun dadd :: "double \<Rightarrow> double \<Rightarrow> double" where
  "dadd (Finite a) (Finite b) = Finite (b64 (a + b))"
| "dadd NaN y = NaN"
| "dadd x NaN = NaN"
| "dadd PInf NInf = NaN"
| "dadd NInf PInf = NaN"
| "dadd PInf y = PInf"
| "dadd x PInf = PInf"
| "dadd NInf y = NInf"
| "dadd x NInf = NInf"

fun dless :: "double \<Rightarrow> real \<Rightarrow> bool" where
  "dless (Finite a) t = (a < t)"
| "dless NInf t = True"
| "dless PInf t = False"
| "dless NaN t = False"

subsection \<open>Simulator (model\_declarations.c)\<close>

text \<open>
  The integer types of the model. In the source \<open>packet_t\<close> is the range
  \<open>int[-1000000,1000000]\<close>; the range check that the model checker performs on every
  assignment is not modelled, packets are integers; where a result depends on
  the range, \<open>packet_range\<close> states it as a hypothesis. The index types \<open>phase_t\<close>, \<open>node_t\<close>,
  \<open>flow_t\<close> and \<open>port_t\<close> are natural numbers, and a loop over such a type runs over
  \<open>[0..<n]\<close>.
\<close>

type_synonym packet_t = int

type_synonym phase_t = nat

type_synonym node_t = nat

type_synonym flow_t = nat

type_synonym port_t = nat

text \<open>
  The range of \<open>packet_t\<close>.
\<close>

definition packet_range :: "packet_t \<Rightarrow> bool" where
  "packet_range v = (- 1000000 \<le> v \<and> v \<le> 1000000)"

record ScheduleChoice =
  port :: port_t
  phase :: phase_t

record Flow =
  ingress :: node_t
  egress :: node_t
  amount :: packet_t

text \<open>
  The constants that the generator writes into the declarations. Arrays are total
  functions, read by the code inside their index range only. \<open>SCHEDULE_TOGGLE\<close> stands for
  the generated statement in \<open>simulatePhase\<close>: the phases for which it calls \<open>reschedule\<close>,
  in order (none when rescheduling is switched off).
\<close>

record Model =
  NUM_PHASES :: nat
  NUM_NODES :: nat
  NUM_FLOWS :: nat
  NUM_PORTS :: nat
  PORT_OWNER :: "port_t \<Rightarrow> node_t"
  PORT_CAPACITIES :: "port_t \<Rightarrow> packet_t"
  PORT_BANDWIDTHS :: "port_t \<Rightarrow> packet_t"
  TOPOLOGY :: "phase_t \<Rightarrow> port_t \<Rightarrow> node_t"
  FLOWS :: "flow_t \<Rightarrow> Flow"
  SCHEDULE_TOGGLE :: "phase_t list"

type_synonym Buffers3 = "phase_t \<Rightarrow> port_t \<Rightarrow> flow_t \<Rightarrow> packet_t"

text \<open>
  The global variables of the simulator; the sampling variables, which no buffer depends
  on, are left out.
\<close>

record State =
  gDidOverflow :: bool
  gCurrentPhase :: nat
  gPortBuffers :: Buffers3
  gPortSent :: "port_t \<Rightarrow> packet_t"
  maxSendFromPortInPhase :: packet_t

text \<open>
  The scheduler behind \<open>extGetScheduleChoice\<close> as one simulation step sees it: a function
  from phase, node and flow to a choice.
\<close>

type_synonym Scheduler = "phase_t \<Rightarrow> node_t \<Rightarrow> flow_t \<Rightarrow> ScheduleChoice"

definition getChoice :: "Scheduler \<Rightarrow> phase_t \<Rightarrow> node_t \<Rightarrow> flow_t \<Rightarrow> ScheduleChoice" where
  "getChoice ext ph node flow = ext ph node flow"

text \<open>
  Assignment to one cell of a three-dimensional array.
\<close>

definition upd3 :: "Buffers3 \<Rightarrow> phase_t \<Rightarrow> port_t \<Rightarrow> flow_t \<Rightarrow> packet_t \<Rightarrow> Buffers3" where
  "upd3 a j p f v = a(j := (a j)(p := (a j p)(f := v)))"

text \<open>
  A loop whose body can fail an assertion: \<open>None\<close> is the run that failed.
\<close>

fun fold_opt :: "('a \<Rightarrow> 'b \<Rightarrow> 'b option) \<Rightarrow> 'a list \<Rightarrow> 'b \<Rightarrow> 'b option" where
  "fold_opt f [] s = Some s"
| "fold_opt f (x # xs) s = (case f x s of None \<Rightarrow> None | Some s' \<Rightarrow> fold_opt f xs s')"

definition verifyScheduler :: "Model \<Rightarrow> Scheduler \<Rightarrow> bool" where
  "verifyScheduler M ext =
     list_all (\<lambda>f.
       list_all (\<lambda>i.
         list_all (\<lambda>n. PORT_OWNER M (port (getChoice ext i n f)) = n)
           [0..<NUM_NODES M])
         [0..<NUM_PHASES M])
       [0..<NUM_FLOWS M]"

definition verifyTopology :: "Model \<Rightarrow> bool" where
  "verifyTopology M =
     (list_all (\<lambda>i. list_all (\<lambda>p. TOPOLOGY M i p \<noteq> PORT_OWNER M p) [0..<NUM_PORTS M])
        [0..<NUM_PHASES M]
      \<and> list_all (\<lambda>f. ingress (FLOWS M f) \<noteq> egress (FLOWS M f)) [0..<NUM_FLOWS M])"

text \<open>
  The \<open>sum\<close> expressions of the source are sums over the index type.
\<close>

definition portBuffered :: "Model \<Rightarrow> State \<Rightarrow> phase_t \<Rightarrow> port_t \<Rightarrow> packet_t" where
  "portBuffered M s i p = (\<Sum>f<NUM_FLOWS M. gPortBuffers s i p f)"

definition totalPortBuffered :: "Model \<Rightarrow> State \<Rightarrow> port_t \<Rightarrow> packet_t" where
  "totalPortBuffered M s p = (\<Sum>i<NUM_PHASES M. portBuffered M s i p)"

definition totalPacketsBuffered :: "Model \<Rightarrow> State \<Rightarrow> packet_t" where
  "totalPacketsBuffered M s = (\<Sum>p<NUM_PORTS M. totalPortBuffered M s p)"

text \<open>
  \<open>round\<close> of the C library rounds a \<open>double\<close> to the nearest integer, halves away from
  zero, and \<open>fint\<close> converts to an integer and drops the fraction; both are exact.
\<close>

definition c_round :: "real \<Rightarrow> real" where
  "c_round x = (if x < 0 then - of_int \<lfloor>- x + 1 / 2\<rfloor> else of_int \<lfloor>x + 1 / 2\<rfloor>)"

definition fint :: "real \<Rightarrow> int" where
  "fint x = (if x < 0 then \<lceil>x\<rceil> else \<lfloor>x\<rfloor>)"

definition sending :: "Model \<Rightarrow> State \<Rightarrow> phase_t \<Rightarrow> port_t \<Rightarrow> flow_t \<Rightarrow> packet_t" where
  "sending M s i p f =
     (let totalBuffered = portBuffered M s i p in
      if totalBuffered = 0 then 0
      else
        let dPacketsToSend = min (to_double (PORT_BANDWIDTHS M p)) (to_double totalBuffered);
            dTotal = to_double totalBuffered;
            dFlow = to_double (gPortBuffers s i p f)
        in fint (c_round (b64 (dFlow * b64 (dPacketsToSend / dTotal)))))"

text \<open>
  \<open>reschedule\<close>: the body of the first loop over ports (the assertion is the \<open>None\<close>
  branch), the treatment of one flow (\<open>deltas\<close> is a local array, zero at its declaration;
  the second loop adds it to the buffers of the flow) and the loop over flows.
\<close>

definition rescheduleDelta ::
  "Model \<Rightarrow> Scheduler \<Rightarrow> State \<Rightarrow> phase_t \<Rightarrow> flow_t \<Rightarrow> port_t
     \<Rightarrow> (phase_t \<Rightarrow> port_t \<Rightarrow> packet_t) \<Rightarrow> (phase_t \<Rightarrow> port_t \<Rightarrow> packet_t) option" where
  "rescheduleDelta M ext s ph f p deltas =
     (let remaining = gPortBuffers s ph p f;
          choice = getChoice ext ph (PORT_OWNER M p) f
      in if PORT_OWNER M (port choice) \<noteq> PORT_OWNER M p then None
         else
           let d1 = deltas(phase choice := (deltas (phase choice))
                      (port choice := deltas (phase choice) (port choice) + remaining));
               d2 = d1(ph := (d1 ph)(p := d1 ph p - remaining))
           in Some d2)"

definition rescheduleFlow :: "Model \<Rightarrow> Scheduler \<Rightarrow> phase_t \<Rightarrow> flow_t \<Rightarrow> State \<Rightarrow> State option" where
  "rescheduleFlow M ext ph f s =
     (case fold_opt (rescheduleDelta M ext s ph f) [0..<NUM_PORTS M] (\<lambda>_ _. 0) of
        None \<Rightarrow> None
      | Some deltas \<Rightarrow>
          Some (s\<lparr>gPortBuffers :=
                  (\<lambda>newPhase p g.
                     if g = f \<and> p < NUM_PORTS M \<and> newPhase < NUM_PHASES M
                     then gPortBuffers s newPhase p f + deltas newPhase p
                     else gPortBuffers s newPhase p g)\<rparr>))"

definition reschedule :: "Model \<Rightarrow> Scheduler \<Rightarrow> phase_t \<Rightarrow> State \<Rightarrow> State option" where
  "reschedule M ext ph s = fold_opt (rescheduleFlow M ext ph) [0..<NUM_FLOWS M] s"

definition nextPhase :: "Model \<Rightarrow> State \<Rightarrow> State" where
  "nextPhase M s =
     (let s1 = s\<lparr>gCurrentPhase := gCurrentPhase s + 1\<rparr>
      in if gCurrentPhase s1 = NUM_PHASES M then s1\<lparr>gCurrentPhase := 0\<rparr> else s1)"

definition validPortState :: "Model \<Rightarrow> State \<Rightarrow> port_t \<Rightarrow> bool" where
  "validPortState M s p = ((\<Sum>i<NUM_PHASES M. portBuffered M s i p) \<le> PORT_CAPACITIES M p)"

text \<open>
  \<open>updateValidState\<close> leaves its loop at the first port over capacity.
\<close>

fun updateValidState_from :: "Model \<Rightarrow> port_t list \<Rightarrow> State \<Rightarrow> bool \<times> State" where
  "updateValidState_from M [] s = (True, s)"
| "updateValidState_from M (p # ps) s =
     (if \<not> validPortState M s p then (False, s\<lparr>gDidOverflow := True\<rparr>)
      else updateValidState_from M ps s)"

definition updateValidState :: "Model \<Rightarrow> State \<Rightarrow> bool \<times> State" where
  "updateValidState M s = updateValidState_from M [0..<NUM_PORTS M] s"

text \<open>
  The sections of \<open>simulatePhase\<close>, one definition per loop body and loop: sent packets
  (with \<open>gPortSent\<close> and \<open>maxSendFromPortInPhase\<close>), received packets, the update of the
  buffers and the ingress. The local arrays \<open>sent\<close> and \<open>recv\<close> are zero at their
  declaration.
\<close>

definition calcSentFlow ::
  "Model \<Rightarrow> State \<Rightarrow> phase_t \<Rightarrow> port_t \<Rightarrow> flow_t \<Rightarrow> packet_t \<times> Buffers3 \<Rightarrow> packet_t \<times> Buffers3" where
  "calcSentFlow M s i p f acc =
     (let fSending = sending M s i p f
      in (fst acc + fSending, upd3 (snd acc) i p f fSending))"

definition calcSentPort :: "Model \<Rightarrow> phase_t \<Rightarrow> port_t \<Rightarrow> Buffers3 \<times> State \<Rightarrow> Buffers3 \<times> State" where
  "calcSentPort M i p acc =
     (let s = snd acc;
          r = fold (calcSentFlow M s i p) [0..<NUM_FLOWS M] (0, fst acc);
          portSending = fst r
      in (snd r,
          s\<lparr>gPortSent := (gPortSent s)(p := portSending),
            maxSendFromPortInPhase :=
              (if portSending > maxSendFromPortInPhase s then portSending
               else maxSendFromPortInPhase s)\<rparr>))"

definition calcSent :: "Model \<Rightarrow> phase_t \<Rightarrow> State \<Rightarrow> Buffers3 \<times> State" where
  "calcSent M i s = fold (calcSentPort M i) [0..<NUM_PORTS M] (\<lambda>_ _ _. 0, s)"

definition calcRecvPort ::
  "Model \<Rightarrow> Scheduler \<Rightarrow> phase_t \<Rightarrow> Buffers3 \<Rightarrow> flow_t \<Rightarrow> port_t \<Rightarrow> Buffers3 \<Rightarrow> Buffers3" where
  "calcRecvPort M ext i sent f pSender recv =
     (let destNode = TOPOLOGY M i pSender
      in if destNode \<noteq> egress (FLOWS M f)
         then
           let choice = getChoice ext i destNode f
           in upd3 recv (phase choice) (port choice) f
                (recv (phase choice) (port choice) f + sent i pSender f)
         else recv)"

definition calcRecv :: "Model \<Rightarrow> Scheduler \<Rightarrow> phase_t \<Rightarrow> Buffers3 \<Rightarrow> Buffers3" where
  "calcRecv M ext i sent =
     fold (\<lambda>f. fold (calcRecvPort M ext i sent f) [0..<NUM_PORTS M]) [0..<NUM_FLOWS M]
       (\<lambda>_ _ _. 0)"

definition applySendRecv :: "Model \<Rightarrow> Buffers3 \<Rightarrow> Buffers3 \<Rightarrow> State \<Rightarrow> State" where
  "applySendRecv M sent recv s =
     s\<lparr>gPortBuffers :=
         (\<lambda>j p f.
            if j < NUM_PHASES M \<and> p < NUM_PORTS M \<and> f < NUM_FLOWS M
            then gPortBuffers s j p f + (recv j p f - sent j p f)
            else gPortBuffers s j p f)\<rparr>"

definition addIngressFlow :: "Model \<Rightarrow> Scheduler \<Rightarrow> phase_t \<Rightarrow> flow_t \<Rightarrow> State \<Rightarrow> State" where
  "addIngressFlow M ext i f s =
     (let n = ingress (FLOWS M f);
          amt = amount (FLOWS M f);
          choice = getChoice ext i n f
      in s\<lparr>gPortBuffers :=
            upd3 (gPortBuffers s) (phase choice) (port choice) f
              (gPortBuffers s (phase choice) (port choice) f + amt)\<rparr>)"

definition addIngress :: "Model \<Rightarrow> Scheduler \<Rightarrow> phase_t \<Rightarrow> State \<Rightarrow> State" where
  "addIngress M ext i s = fold (addIngressFlow M ext i) [0..<NUM_FLOWS M] s"

text \<open>
  One step. \<open>extPrepareChoices\<close> has acted before the step's scheduler \<open>ext\<close> is read,
  and \<open>pushBuffers\<close>, which copies the buffers to the scheduler's mirror, changes nothing
  in the simulator's state. A failed assertion of \<open>reschedule\<close> is \<open>None\<close>.
\<close>

definition simulatePhase :: "Model \<Rightarrow> Scheduler \<Rightarrow> State \<Rightarrow> State option" where
  "simulatePhase M ext s =
     (let i = gCurrentPhase s;
          sr = calcSent M i s;
          sent = fst sr;
          recv = calcRecv M ext i sent;
          s2 = applySendRecv M sent recv (snd sr)
      in case fold_opt (reschedule M ext) (SCHEDULE_TOGGLE M) s2 of
           None \<Rightarrow> None
         | Some s3 \<Rightarrow>
             Some (nextPhase M (snd (updateValidState M (addIngress M ext i s3)))))"

text \<open>
  A run of several steps, with the scheduler of each step.
\<close>

fun run :: "Model \<Rightarrow> Scheduler list \<Rightarrow> State \<Rightarrow> State option" where
  "run M [] s = Some s"
| "run M (ext # exts) s =
     (case simulatePhase M ext s of None \<Rightarrow> None | Some s' \<Rightarrow> run M exts s')"

text \<open>
  The packets held in a three-dimensional array, within the index ranges.
\<close>

definition total3 :: "Model \<Rightarrow> Buffers3 \<Rightarrow> packet_t" where
  "total3 M b = (\<Sum>j<NUM_PHASES M. \<Sum>p<NUM_PORTS M. \<Sum>f<NUM_FLOWS M. b j p f)"

text \<open>
  The scheduler's choices name existing phases and ports, as the types \<open>phase_t\<close> and
  \<open>port_t\<close> of the fields of \<open>ScheduleChoice\<close> demand.
\<close>

definition ext_in_range :: "Model \<Rightarrow> Scheduler \<Rightarrow> bool" where
  "ext_in_range M ext =
     (\<forall>i n f. phase (ext i n f) < NUM_PHASES M \<and> port (ext i n f) < NUM_PORTS M)"

text \<open>
  Notions for \<open>reschedule\<close>: the assertion holds for the first \<open>k\<close> ports; the packets
  that these ports move into a cell; and a flow whose buffered packets already sit where
  the scheduler sends them.
\<close>

definition asserts_ok :: "Model \<Rightarrow> Scheduler \<Rightarrow> phase_t \<Rightarrow> flow_t \<Rightarrow> nat \<Rightarrow> bool" where
  "asserts_ok M ext ph f k =
     (\<forall>q<k. PORT_OWNER M (port (ext ph (PORT_OWNER M q) f)) = PORT_OWNER M q)"

definition moved_in :: "Model \<Rightarrow> Scheduler \<Rightarrow> Buffers3 \<Rightarrow> phase_t \<Rightarrow> flow_t \<Rightarrow> nat \<Rightarrow> phase_t \<Rightarrow> port_t \<Rightarrow> packet_t" where
  "moved_in M ext b ph f k j p =
     (\<Sum>q<k. if phase (ext ph (PORT_OWNER M q) f) = j \<and> port (ext ph (PORT_OWNER M q) f) = p
             then b ph q f else 0)"

definition settled :: "Model \<Rightarrow> Scheduler \<Rightarrow> phase_t \<Rightarrow> flow_t \<Rightarrow> Buffers3 \<Rightarrow> bool" where
  "settled M ext ph f b =
     (\<forall>q<NUM_PORTS M. b ph q f \<noteq> 0 \<longrightarrow>
        phase (ext ph (PORT_OWNER M q) f) = ph \<and> port (ext ph (PORT_OWNER M q) f) = q)"

text \<open>
  The packets that leave the network in a step: those sent through a port whose target
  in the current phase is the egress of their flow.
\<close>

definition delivered :: "Model \<Rightarrow> State \<Rightarrow> packet_t" where
  "delivered M s =
     (\<Sum>f<NUM_FLOWS M. \<Sum>p<NUM_PORTS M.
        if TOPOLOGY M (gCurrentPhase s) p = egress (FLOWS M f)
        then sending M s (gCurrentPhase s) p f else 0)"

text \<open>
  Two nodes with one port each, leading to the other node, and one flow from node 0 to
  node 1. In the state \<open>exS\<close> every buffer cell holds 6 packets, 12 for each port, over the
  capacity of 10.
\<close>

definition exM :: Model where
  "exM = \<lparr>NUM_PHASES = 2, NUM_NODES = 2, NUM_FLOWS = 1, NUM_PORTS = 2,
          PORT_OWNER = (\<lambda>p. p), PORT_CAPACITIES = (\<lambda>_. 10), PORT_BANDWIDTHS = (\<lambda>_. 1),
          TOPOLOGY = (\<lambda>i p. 1 - p),
          FLOWS = (\<lambda>f. \<lparr>ingress = 0, egress = 1, amount = 3\<rparr>),
          SCHEDULE_TOGGLE = []\<rparr>"

definition exExt :: Scheduler where
  "exExt = (\<lambda>ph node f. \<lparr>port = node mod 2, phase = (ph + 1) mod 2\<rparr>)"

definition exS :: State where
  "exS = \<lparr>gDidOverflow = False, gCurrentPhase = 0, gPortBuffers = (\<lambda>_ _ _. 6),
          gPortSent = (\<lambda>_. 0), maxSendFromPortInPhase = 0\<rparr>"

text \<open>
  Two flows with one packet each behind one port of bandwidth 1.
\<close>

definition rrM :: Model where
  "rrM = \<lparr>NUM_PHASES = 1, NUM_NODES = 2, NUM_FLOWS = 2, NUM_PORTS = 1,
          PORT_OWNER = (\<lambda>p. 0), PORT_CAPACITIES = (\<lambda>_. 10), PORT_BANDWIDTHS = (\<lambda>_. 1),
          TOPOLOGY = (\<lambda>i p. 1),
          FLOWS = (\<lambda>f. \<lparr>ingress = 0, egress = 1, amount = 1\<rparr>),
          SCHEDULE_TOGGLE = []\<rparr>"

definition rrS :: State where
  "rrS = \<lparr>gDidOverflow = False, gCurrentPhase = 0, gPortBuffers = (\<lambda>_ _ _. 1),
          gPortSent = (\<lambda>_. 0), maxSendFromPortInPhase = 0\<rparr>"

text \<open>
  Two flows with 11 packets each behind one port of bandwidth 15: in binary64 the quotient
  \<open>15 / 22\<close> and its product with 11 are rounded, the product stays just below 7.5, and
  each flow sends 7 packets.
\<close>

definition fpM :: Model where
  "fpM = \<lparr>NUM_PHASES = 1, NUM_NODES = 2, NUM_FLOWS = 2, NUM_PORTS = 1,
          PORT_OWNER = (\<lambda>p. 0), PORT_CAPACITIES = (\<lambda>_. 100), PORT_BANDWIDTHS = (\<lambda>_. 15),
          TOPOLOGY = (\<lambda>i p. 1),
          FLOWS = (\<lambda>f. \<lparr>ingress = 0, egress = 1, amount = 1\<rparr>),
          SCHEDULE_TOGGLE = []\<rparr>"

definition fpS :: State where
  "fpS = \<lparr>gDidOverflow = False, gCurrentPhase = 0, gPortBuffers = (\<lambda>_ _ _. 11),
          gPortSent = (\<lambda>_. 0), maxSendFromPortInPhase = 0\<rparr>"

subsection \<open>Network data and the temporal graph (ext.hpp, temporal\_graph.cpp)\<close>

text \<open>
  The data of \<open>ext.hpp\<close>. Vectors are lists; a read outside a vector is outside the
  model and excluded by the well-formedness predicates below. \<open>topology\<close> is the array
  \<open>[phase][port]\<close> stored row by row, \<open>buf_values\<close> the array \<open>[phase][port][flow]\<close>.
\<close>

record PortInPhase =
  pip_port :: port_t
  pip_phase :: phase_t

record NodeInPhase =
  nip_node :: node_t
  nip_phase :: phase_t

record Parameters =
  p_num_phases :: nat
  p_num_nodes :: nat
  p_num_flows :: nat
  p_num_ports :: nat
  capacities :: "packet_t list"
  bandwidths :: "packet_t list"

record Topology =
  num_phases :: nat
  num_ports :: nat
  num_nodes :: nat
  topology :: "node_t list"
  portOwner :: "node_t list"

definition target_at :: "Topology \<Rightarrow> phase_t \<Rightarrow> port_t \<Rightarrow> node_t" where
  "target_at tp ph po = topology tp ! (ph * num_ports tp + po)"

definition owner :: "Topology \<Rightarrow> port_t \<Rightarrow> node_t" where
  "owner tp po = portOwner tp ! po"

record Buffers =
  buf_values :: "packet_t list"
  buf_phases :: nat
  buf_ports :: nat
  buf_flows :: nat

definition buffers_at :: "Buffers \<Rightarrow> phase_t \<Rightarrow> port_t \<Rightarrow> flow_t \<Rightarrow> packet_t" where
  "buffers_at b ph po fl = buf_values b ! (ph * buf_ports b * buf_flows b + po * buf_flows b + fl)"

record Network =
  parameters :: Parameters
  buffers :: Buffers
  flows :: "Flow list"
  net_topology :: Topology

text \<open>
  The temporal graph. A vertex is a node, a node in a phase or a port in a phase. The
  graph is an adjacency list over vectors: a vertex descriptor is the position of the
  vertex, and an edge is kept as source, target and bundled \<open>TEdge\<close>, in the order of
  insertion.
\<close>

record TPort =
  tport_phase :: phase_t
  tport_port :: port_t

record TNode =
  tnode_node :: node_t

record TPhaseNode =
  tpn_phase :: phase_t
  tpn_node :: node_t

datatype TVertex = VNode TNode | VPhaseNode TPhaseNode | VPort TPort

record TEdge =
  time :: int
  hop :: int
  delay :: int

record Graph =
  vertices :: "TVertex list"
  edges :: "(nat \<times> nat \<times> TEdge) list"

record TemporalGraph =
  tg_topology :: Topology
  graph :: Graph
  vNodes :: "nat list"
  vPN :: "nat list"
  vPP :: "nat list"

definition phaseAdd :: "TemporalGraph \<Rightarrow> phase_t \<Rightarrow> phase_t \<Rightarrow> phase_t" where
  "phaseAdd tg p add = (p + add) mod num_phases (tg_topology tg)"

definition pnIndex :: "TemporalGraph \<Rightarrow> phase_t \<Rightarrow> node_t \<Rightarrow> nat" where
  "pnIndex tg ph node = ph * num_nodes (tg_topology tg) + node"

definition ppIndex :: "TemporalGraph \<Rightarrow> phase_t \<Rightarrow> port_t \<Rightarrow> nat" where
  "ppIndex tg ph po = ph * num_ports (tg_topology tg) + po"

definition nIndex :: "TemporalGraph \<Rightarrow> node_t \<Rightarrow> nat" where
  "nIndex tg node = node"

definition add_vertex :: "TVertex \<Rightarrow> Graph \<Rightarrow> nat \<times> Graph" where
  "add_vertex v g = (length (vertices g), g\<lparr>vertices := vertices g @ [v]\<rparr>)"

definition add_edge :: "nat \<Rightarrow> nat \<Rightarrow> TEdge \<Rightarrow> Graph \<Rightarrow> Graph" where
  "add_edge vFrom vTo e g = g\<lparr>edges := edges g @ [(vFrom, vTo, e)]\<rparr>"

definition out_edges :: "nat \<Rightarrow> Graph \<Rightarrow> (nat \<times> nat \<times> TEdge) list" where
  "out_edges v g = filter (\<lambda>e. fst e = v) (edges g)"

definition pushNode :: "node_t \<Rightarrow> TemporalGraph \<Rightarrow> TemporalGraph" where
  "pushNode node tg =
     (let r = add_vertex (VNode \<lparr>tnode_node = node\<rparr>) (graph tg)
      in tg\<lparr>graph := snd r, vNodes := vNodes tg @ [fst r]\<rparr>)"

definition pushPhaseNode :: "phase_t \<Rightarrow> node_t \<Rightarrow> TemporalGraph \<Rightarrow> TemporalGraph" where
  "pushPhaseNode ph node tg =
     (let r = add_vertex (VPhaseNode \<lparr>tpn_phase = ph, tpn_node = node\<rparr>) (graph tg)
      in tg\<lparr>graph := snd r, vPN := vPN tg @ [fst r]\<rparr>)"

definition pushPhasePort :: "phase_t \<Rightarrow> port_t \<Rightarrow> TemporalGraph \<Rightarrow> TemporalGraph" where
  "pushPhasePort ph po tg =
     (let r = add_vertex (VPort \<lparr>tport_phase = ph, tport_port = po\<rparr>) (graph tg)
      in tg\<lparr>graph := snd r, vPP := vPP tg @ [fst r]\<rparr>)"

definition createVertices :: "TemporalGraph \<Rightarrow> TemporalGraph" where
  "createVertices tg =
     (let tp = tg_topology tg;
          tg1 = fold pushNode [0..<num_nodes tp] tg;
          tg2 = fold (\<lambda>ph. fold (pushPhaseNode ph) [0..<num_nodes tp]) [0..<num_phases tp] tg1;
          tg3 = fold (\<lambda>ph. fold (pushPhasePort ph) [0..<num_ports tp]) [0..<num_phases tp] tg2
      in tg3)"

text \<open>
  \<open>createWaits\<close> is empty in the source.
\<close>

definition createWaits :: "TemporalGraph \<Rightarrow> TemporalGraph" where
  "createWaits tg = tg"

definition collectorEdge :: "phase_t \<Rightarrow> node_t \<Rightarrow> TemporalGraph \<Rightarrow> TemporalGraph" where
  "collectorEdge ph node tg =
     (let vFrom = vPN tg ! pnIndex tg ph node;
          vTo = vNodes tg ! nIndex tg node
      in tg\<lparr>graph := add_edge vFrom vTo \<lparr>time = 0, hop = 0, delay = 0\<rparr> (graph tg)\<rparr>)"

definition createCollectorNodeEdges :: "TemporalGraph \<Rightarrow> TemporalGraph" where
  "createCollectorNodeEdges tg =
     fold (\<lambda>ph. fold (collectorEdge ph) [0..<num_nodes (tg_topology tg)])
       [0..<num_phases (tg_topology tg)] tg"

definition transferEdge :: "phase_t \<Rightarrow> port_t \<Rightarrow> TemporalGraph \<Rightarrow> TemporalGraph" where
  "transferEdge ph po tg =
     (let target = target_at (tg_topology tg) ph po;
          vFrom = vPP tg ! ppIndex tg ph po;
          arrivePhase = phaseAdd tg ph 1;
          vTo = vPN tg ! pnIndex tg arrivePhase target
      in tg\<lparr>graph := add_edge vFrom vTo \<lparr>time = 1, hop = 1, delay = 0\<rparr> (graph tg)\<rparr>)"

definition enqueueEdge :: "phase_t \<Rightarrow> port_t \<Rightarrow> nat \<Rightarrow> TemporalGraph \<Rightarrow> TemporalGraph" where
  "enqueueEdge ph po waitTime tg =
     (let own = owner (tg_topology tg) po;
          vFrom = vPN tg ! pnIndex tg ph own;
          targetPhase = phaseAdd tg ph waitTime;
          vTo = vPP tg ! ppIndex tg targetPhase po
      in tg\<lparr>graph := add_edge vFrom vTo \<lparr>time = int waitTime, hop = 0, delay = 1\<rparr> (graph tg)\<rparr>)"

definition createTransfers :: "TemporalGraph \<Rightarrow> TemporalGraph" where
  "createTransfers tg =
     (let tp = tg_topology tg;
          tg1 = fold (\<lambda>ph. fold (transferEdge ph) [0..<num_ports tp]) [0..<num_phases tp] tg;
          tg2 = fold (\<lambda>ph. fold (\<lambda>po. fold (enqueueEdge ph po) [1..<num_phases tp + 1])
                               [0..<num_ports tp])
                  [0..<num_phases tp] tg1
      in tg2)"

definition TemporalGraph_new :: "Topology \<Rightarrow> TemporalGraph" where
  "TemporalGraph_new topology0 =
     createCollectorNodeEdges (createTransfers (createWaits (createVertices
       \<lparr>tg_topology = topology0, graph = \<lparr>vertices = [], edges = []\<rparr>,
        vNodes = [], vPN = [], vPP = []\<rparr>)))"

text \<open>
  The graph before construction, and the three kinds of edge as values: they give
  the constructed graph in closed form.
\<close>

definition tg0 :: "Topology \<Rightarrow> TemporalGraph" where
  "tg0 tp = \<lparr>tg_topology = tp, graph = \<lparr>vertices = [], edges = []\<rparr>,
             vNodes = [], vPN = [], vPP = []\<rparr>"

definition with_edges :: "TemporalGraph \<Rightarrow> (nat \<times> nat \<times> TEdge) list \<Rightarrow> TemporalGraph" where
  "with_edges tg es = tg\<lparr>graph := (graph tg)\<lparr>edges := es\<rparr>\<rparr>"

definition collector_of :: "TemporalGraph \<Rightarrow> phase_t \<Rightarrow> node_t \<Rightarrow> nat \<times> nat \<times> TEdge" where
  "collector_of tg ph node =
     (vPN tg ! pnIndex tg ph node, vNodes tg ! nIndex tg node, \<lparr>time = 0, hop = 0, delay = 0\<rparr>)"

definition transfer_of :: "TemporalGraph \<Rightarrow> phase_t \<Rightarrow> port_t \<Rightarrow> nat \<times> nat \<times> TEdge" where
  "transfer_of tg ph po =
     (vPP tg ! ppIndex tg ph po,
      vPN tg ! pnIndex tg (phaseAdd tg ph 1) (target_at (tg_topology tg) ph po),
      \<lparr>time = 1, hop = 1, delay = 0\<rparr>)"

definition enqueue_of :: "TemporalGraph \<Rightarrow> phase_t \<Rightarrow> port_t \<Rightarrow> nat \<Rightarrow> nat \<times> nat \<times> TEdge" where
  "enqueue_of tg ph po w =
     (vPN tg ! pnIndex tg ph (owner (tg_topology tg) po),
      vPP tg ! ppIndex tg (phaseAdd tg ph w) po,
      \<lparr>time = int w, hop = 0, delay = 1\<rparr>)"

text \<open>
  A well-formed topology: the arrays have the sizes that the counts announce, and
  their entries name existing nodes.
\<close>

definition wf_topology :: "Topology \<Rightarrow> bool" where
  "wf_topology tp =
     (length (portOwner tp) = num_ports tp
      \<and> length (topology tp) = num_phases tp * num_ports tp
      \<and> (\<forall>po<num_ports tp. portOwner tp ! po < num_nodes tp)
      \<and> (\<forall>k<num_phases tp * num_ports tp. topology tp ! k < num_nodes tp))"

text \<open>
  The vertex descriptors of a node in a phase and of a port in a phase.
\<close>

definition pn_desc :: "Topology \<Rightarrow> phase_t \<Rightarrow> node_t \<Rightarrow> nat" where
  "pn_desc tp ph n = num_nodes tp + (ph * num_nodes tp + n)"

definition pp_desc :: "Topology \<Rightarrow> phase_t \<Rightarrow> port_t \<Rightarrow> nat" where
  "pp_desc tp ph po = num_nodes tp + num_phases tp * num_nodes tp + (ph * num_ports tp + po)"

subsection \<open>Router (graph\_ext.cpp, capacity/ext.cpp)\<close>

datatype APPROACH = quickest | fewest_hops

text \<open>
  The parameters of the variants in one record: the fixed variant has \<open>approach\<close> only,
  the randomized variant \<open>numPaths\<close> too, the capacity-aware variant all three.
\<close>

record Params =
  approach :: APPROACH
  numPaths :: nat
  alternativeTreshold :: real

text \<open>
  \<open>dijkstra_shortest_paths\<close> of the graph library, run from the destination over the
  reversed graph with the edge costs of the approach, is a parameter: it returns the
  predecessor map and the distance map. The library sets the distance of a vertex that
  the search does not reach to the largest \<open>int\<close>, 2147483647, and its predecessor to
  the vertex itself.
\<close>

type_synonym dijkstra = "Graph \<Rightarrow> nat \<Rightarrow> APPROACH \<Rightarrow> (nat \<Rightarrow> nat) \<times> (nat \<Rightarrow> int)"

definition edgeCost :: "APPROACH \<Rightarrow> TEdge \<Rightarrow> int" where
  "edgeCost ap edge =
     (if ap = fewest_hops then wrap32 (10000 * hop edge + time edge)
      else wrap32 (10000 * time edge + hop edge))"

type_synonym Solution = "NodeInPhase \<rightharpoonup> PortInPhase list"

definition storeBest :: "NodeInPhase \<Rightarrow> PortInPhase list \<Rightarrow> Solution \<Rightarrow> Solution" where
  "storeBest nip best sol = sol(nip \<mapsto> best)"

text \<open>
  The loops of \<open>constructSolutionForEgress\<close> and \<open>constructSolutionForFlow\<close>, which share
  their text: the neighbours of a phase-node that are ports, with their costs; the choice
  of the best \<open>numPaths\<close> among them after a stable sort by cost; and the table over all
  phases and nodes.
\<close>

definition neighboursOf ::
  "TemporalGraph \<Rightarrow> APPROACH \<Rightarrow> (nat \<Rightarrow> int) \<Rightarrow> nat \<Rightarrow> (TPort \<times> int) list" where
  "neighboursOf tg ap d curVertex =
     List.map_filter
       (\<lambda>e. let vNext = fst (snd e) in
             case vertices (graph tg) ! vNext of
               VPort pn \<Rightarrow> Some (pn, wrap32 (edgeCost ap (snd (snd e)) + d vNext))
             | _ \<Rightarrow> None)
       (out_edges curVertex (graph tg))"

fun takeBest ::
  "nat \<Rightarrow> (TPort \<times> int) list \<Rightarrow> PortInPhase list \<Rightarrow> port_t list \<Rightarrow> PortInPhase list" where
  "takeBest K [] options seenPorts = options"
| "takeBest K (n # ns) options seenPorts =
     (let next = fst n in
      if tport_port next \<in> set seenPorts then takeBest K ns options seenPorts
      else
        let options' = options @ [\<lparr>pip_port = tport_port next, pip_phase = tport_phase next\<rparr>];
            seenPorts' = seenPorts @ [tport_port next]
        in if length options' \<ge> K then options' else takeBest K ns options' seenPorts')"

definition bestOptions ::
  "TemporalGraph \<Rightarrow> Params \<Rightarrow> (nat \<Rightarrow> int) \<Rightarrow> phase_t \<Rightarrow> node_t \<Rightarrow> PortInPhase list" where
  "bestOptions tg params d ph node =
     (let curVertex = vPN tg ! pnIndex tg ph node;
          neighbours = neighboursOf tg (approach params) d curVertex;
          sorted_neighbours = sort_key snd neighbours
      in takeBest (numPaths params) sorted_neighbours [] [])"

definition solutionTable ::
  "Network \<Rightarrow> TemporalGraph \<Rightarrow> Params \<Rightarrow> (nat \<Rightarrow> int) \<Rightarrow> Solution" where
  "solutionTable net tg params d =
     fold (\<lambda>ph. fold (\<lambda>node. storeBest \<lparr>nip_node = node, nip_phase = ph\<rparr>
                                (bestOptions tg params d ph node))
                  [0..<p_num_nodes (parameters net)])
       [0..<p_num_phases (parameters net)] Map.empty"

definition constructSolutionForEgress ::
  "dijkstra \<Rightarrow> Network \<Rightarrow> TemporalGraph \<Rightarrow> node_t \<Rightarrow> Params \<Rightarrow> Solution" where
  "constructSolutionForEgress dsp net tgGraph egress_node params =
     (let destVertex = vNodes tgGraph ! egress_node;
          d = snd (dsp (graph tgGraph) destVertex (approach params))
      in solutionTable net tgGraph params d)"

definition constructSolutionForFlow ::
  "dijkstra \<Rightarrow> Network \<Rightarrow> TemporalGraph \<Rightarrow> flow_t \<Rightarrow> Params \<Rightarrow> Solution" where
  "constructSolutionForFlow dsp net tgGraph flow params =
     (let netDestination = egress (flows net ! flow);
          destVertex = vNodes tgGraph ! netDestination;
          d = snd (dsp (graph tgGraph) destVertex (approach params))
      in solutionTable net tgGraph params d)"

definition pip_of :: "TPort \<times> int \<Rightarrow> PortInPhase" where
  "pip_of n = \<lparr>pip_port = tport_port (fst n), pip_phase = tport_phase (fst n)\<rparr>"

subsection \<open>Scheduler variants\<close>

text \<open>
  \<open>hash_bounded\<close> takes two unsigned 32-bit numbers and computes with unsigned 64-bit
  numbers.
\<close>

definition hash_bounded :: "32 word \<Rightarrow> 32 word \<Rightarrow> 32 word" where
  "hash_bounded x m =
     (let a = (0x28ec0f222c79fb46 :: 64 word);
          b = (0x2179c594b7d54ca2 :: 64 word)
      in ucast (drop_bit 32 (drop_bit 32 (a * ucast x + b) * ucast m)))"

text \<open>
  \<open>EgressSolution::getChoice\<close>. A key missing from the table, the failed assertion and an
  index outside the list are \<open>None\<close>. The phase and the node are converted to 32-bit
  numbers for hashing.
\<close>

definition EgressSolution_getChoice ::
  "Solution \<Rightarrow> 32 word \<Rightarrow> phase_t \<Rightarrow> node_t \<Rightarrow> ScheduleChoice option" where
  "EgressSolution_getChoice sol random_num ph node =
     (case sol \<lparr>nip_node = node, nip_phase = ph\<rparr> of
        None \<Rightarrow> None
      | Some cpy \<Rightarrow>
          if \<not> (length cpy > 0) then None
          else
            let index = unat (hash_bounded
                   ((push_bit 16 (word_of_nat ph) + word_of_nat node) XOR random_num)
                   (word_of_nat (length cpy)))
            in if index < length cpy
               then Some \<lparr>port = pip_port (cpy ! index), phase = pip_phase (cpy ! index)\<rparr>
               else None)"

text \<open>
  The global variables of the randomized variant. The generator \<open>mt19937\<close> is a
  parameter, a function from the number of draws since seeding to the number drawn;
  \<open>random_gen\<close> counts the draws.
\<close>

record RndState =
  rnd_pSolutions :: "Solution list"
  random_num :: "32 word"
  random_gen :: nat

text \<open>
  \<open>constructSolutions\<close> of the randomized variant: for every node that is the egress of a
  flow, one table, assigned to each flow with that egress.
\<close>

definition rnd_solutionsFor ::
  "dijkstra \<Rightarrow> Network \<Rightarrow> TemporalGraph \<Rightarrow> Params \<Rightarrow> node_t \<Rightarrow> Solution list \<Rightarrow> Solution list" where
  "rnd_solutionsFor dsp net tg params egress_node sols =
     (let is_destination = list_ex (\<lambda>f. egress f = egress_node) (flows net)
      in if is_destination
         then
           let solution = constructSolutionForEgress dsp net tg egress_node params
           in fold (\<lambda>flow sols.
                  if egress (flows net ! flow) = egress_node
                  then sols[flow := solution] else sols)
                [0..<p_num_flows (parameters net)] sols
         else sols)"

definition rnd_constructSolutions :: "dijkstra \<Rightarrow> Network \<Rightarrow> Params \<Rightarrow> Solution list" where
  "rnd_constructSolutions dsp net params =
     (let tg = TemporalGraph_new (net_topology net)
      in fold (rnd_solutionsFor dsp net tg params)
           [0..<p_num_nodes (parameters net)]
           (replicate (p_num_flows (parameters net)) Map.empty))"

definition rnd_customGetScheduleChoice ::
  "RndState \<Rightarrow> phase_t \<Rightarrow> node_t \<Rightarrow> flow_t \<Rightarrow> ScheduleChoice option" where
  "rnd_customGetScheduleChoice st phase_i node flow =
     (if flow < length (rnd_pSolutions st)
      then EgressSolution_getChoice (rnd_pSolutions st ! flow) (random_num st) phase_i node
      else None)"

definition rnd_customPrepareChoices :: "(nat \<Rightarrow> 32 word) \<Rightarrow> RndState \<Rightarrow> RndState" where
  "rnd_customPrepareChoices mt19937 st =
     st\<lparr>random_num := mt19937 (random_gen st), random_gen := Suc (random_gen st)\<rparr>"

definition rnd_customBegin :: "RndState \<Rightarrow> RndState" where
  "rnd_customBegin st = st\<lparr>random_gen := 0\<rparr>"

definition rnd_customSetup :: "dijkstra \<Rightarrow> Network \<Rightarrow> Params \<Rightarrow> RndState \<Rightarrow> RndState" where
  "rnd_customSetup dsp net params st = st\<lparr>rnd_pSolutions := rnd_constructSolutions dsp net params\<rparr>"

text \<open>
  \<open>PortLoad\<close> reads the scheduler's mirror of the buffers in \<open>network\<close>. Packets are
  counted in \<open>packet_t\<close>, which is \<open>int32_t\<close>; the load of a phase is the quotient, in
  \<open>double\<close>, of the converted count and the converted capacity, and the total load the
  sum of the loads in \<open>double\<close>, phase after phase from 0.
\<close>

definition getPackets :: "Network \<Rightarrow> port_t \<Rightarrow> phase_t \<Rightarrow> packet_t" where
  "getPackets net po ph =
     fold (\<lambda>f total. wrap32 (total + buffers_at (buffers net) ph po f))
       [0..<p_num_flows (parameters net)] 0"

definition getLoad :: "Network \<Rightarrow> port_t \<Rightarrow> phase_t \<Rightarrow> double" where
  "getLoad net po ph =
     ddiv (to_double (getPackets net po ph)) (to_double (capacities (parameters net) ! po))"

definition getTotalPackets :: "Network \<Rightarrow> port_t \<Rightarrow> packet_t" where
  "getTotalPackets net po =
     fold (\<lambda>ph total. wrap32 (total + getPackets net po ph))
       [0..<p_num_phases (parameters net)] 0"

definition getTotalPortLoad :: "Network \<Rightarrow> port_t \<Rightarrow> double" where
  "getTotalPortLoad net po =
     fold (\<lambda>ph total. dadd total (getLoad net po ph))
       [0..<p_num_phases (parameters net)] (Finite 0)"

text \<open>
  \<open>std::find_if\<close>, as the position of the first element that satisfies the predicate, or
  the length of the list when there is none.
\<close>

fun find_if :: "('a \<Rightarrow> bool) \<Rightarrow> 'a list \<Rightarrow> nat" where
  "find_if pred [] = 0"
| "find_if pred (x # xs) = (if pred x then 0 else Suc (find_if pred xs))"

text \<open>
  \<open>FlowSolution::getChoice\<close>. A key missing from the table and the read of \<open>cpy[0]\<close> in
  an empty list are \<open>None\<close>.
\<close>

definition FlowSolution_getChoice ::
  "Params \<Rightarrow> Solution \<Rightarrow> phase_t \<Rightarrow> node_t \<Rightarrow> Network \<Rightarrow> ScheduleChoice option" where
  "FlowSolution_getChoice params sol ph node loads =
     (case sol \<lparr>nip_node = node, nip_phase = ph\<rparr> of
        None \<Rightarrow> None
      | Some cpy \<Rightarrow>
          let treshold = alternativeTreshold params;
              choice = find_if (\<lambda>pip. dless (getTotalPortLoad loads (pip_port pip)) treshold) cpy
          in if choice = length cpy
             then (if cpy = [] then None
                   else Some \<lparr>port = pip_port (cpy ! 0), phase = pip_phase (cpy ! 0)\<rparr>)
             else Some \<lparr>port = pip_port (cpy ! choice), phase = pip_phase (cpy ! choice)\<rparr>)"

definition cap_constructSolutions :: "dijkstra \<Rightarrow> Network \<Rightarrow> Params \<Rightarrow> Solution list" where
  "cap_constructSolutions dsp net params =
     (let tg = TemporalGraph_new (net_topology net)
      in fold (\<lambda>flow sols. sols @ [constructSolutionForFlow dsp net tg flow params])
           [0..<p_num_flows (parameters net)] [])"

record CapState =
  cap_pSolutions :: "Solution list"
  cap_params :: Params

definition cap_customGetScheduleChoice ::
  "CapState \<Rightarrow> Network \<Rightarrow> phase_t \<Rightarrow> node_t \<Rightarrow> flow_t \<Rightarrow> ScheduleChoice option" where
  "cap_customGetScheduleChoice st net phase_i node flow =
     (if flow < length (cap_pSolutions st)
      then FlowSolution_getChoice (cap_params st) (cap_pSolutions st ! flow) phase_i node net
      else None)"

text \<open>
  The fixed variant: the key of the choice cache, and the cache as a partial map.
\<close>

record ChoiceArgs =
  ca_phase :: nat
  ca_node :: nat
  ca_destination :: nat

type_synonym ChoiceCache = "ChoiceArgs \<rightharpoonup> ScheduleChoice"

fun findOwnedPort_from :: "node_t list \<Rightarrow> node_t \<Rightarrow> nat \<Rightarrow> port_t" where
  "findOwnedPort_from [] own i = 0"
| "findOwnedPort_from (x # xs) own i = (if x = own then i else findOwnedPort_from xs own (Suc i))"

definition findOwnedPort :: "Topology \<Rightarrow> node_t \<Rightarrow> port_t" where
  "findOwnedPort tp own = findOwnedPort_from (portOwner tp) own 0"

definition is_TPhaseNode :: "TVertex \<Rightarrow> bool" where
  "is_TPhaseNode v = (case v of VPhaseNode _ \<Rightarrow> True | _ \<Rightarrow> False)"

text \<open>
  The body of the loops of \<open>computeToDestination\<close> for one phase and node. The assertion
  that the next vertex is no phase-node is the \<open>None\<close> branch; with assertions compiled
  out, the loop that follows does not end on a vertex that is its own predecessor.
\<close>

definition computeChoice ::
  "TemporalGraph \<Rightarrow> (nat \<Rightarrow> nat) \<Rightarrow> phase_t \<Rightarrow> node_t \<Rightarrow> ScheduleChoice option" where
  "computeChoice tg p i from_node =
     (let port0 = findOwnedPort (tg_topology tg) from_node;
          phase0 = phaseAdd tg i 1;
          currentVertex = vPN tg ! pnIndex tg i from_node;
          next = p currentVertex
      in if is_TPhaseNode (vertices (graph tg) ! next) then None
         else (case vertices (graph tg) ! next of
                 VPort pNext \<Rightarrow> Some \<lparr>port = tport_port pNext, phase = tport_phase pNext\<rparr>
               | _ \<Rightarrow> Some \<lparr>port = port0, phase = phase0\<rparr>))"

definition computeToDestination ::
  "dijkstra \<Rightarrow> Params \<Rightarrow> Network \<Rightarrow> TemporalGraph \<Rightarrow> node_t \<Rightarrow> ChoiceCache \<Rightarrow> ChoiceCache option" where
  "computeToDestination dsp params net tg destination cache =
     (let destVertex = vNodes tg ! destination;
          p = fst (dsp (graph tg) destVertex (approach params))
      in fold_opt (\<lambda>i. fold_opt (\<lambda>from_node cache.
             case computeChoice tg p i from_node of
               None \<Rightarrow> None
             | Some c \<Rightarrow>
                 Some (cache(\<lparr>ca_phase = i, ca_node = from_node, ca_destination = destination\<rparr>
                          \<mapsto> c)))
           [0..<p_num_nodes (parameters net)])
         [0..<p_num_phases (parameters net)] cache)"

text \<open>
  \<open>cachedChoice\<close> returns the choice and the cache; a key that is still missing after
  \<open>computeToDestination\<close> is \<open>None\<close>.
\<close>

definition cachedChoice ::
  "dijkstra \<Rightarrow> Params \<Rightarrow> Network \<Rightarrow> TemporalGraph \<Rightarrow> ChoiceCache
     \<Rightarrow> phase_t \<Rightarrow> node_t \<Rightarrow> flow_t \<Rightarrow> (ScheduleChoice \<times> ChoiceCache) option" where
  "cachedChoice dsp params net tg cache phase_i from_node flow =
     (let egr = egress (flows net ! flow);
          key = \<lparr>ca_phase = phase_i, ca_node = from_node, ca_destination = egr\<rparr>
      in case cache key of
           Some c \<Rightarrow> Some (c, cache)
         | None \<Rightarrow>
             (case computeToDestination dsp params net tg egr cache of
                None \<Rightarrow> None
              | Some cache' \<Rightarrow>
                  (case cache' key of None \<Rightarrow> None | Some c \<Rightarrow> Some (c, cache'))))"

text \<open>
  A well-formed network: a well-formed topology, counts that agree with it, and flows
  whose egress is a node.
\<close>

definition wf_network :: "Network \<Rightarrow> bool" where
  "wf_network net =
     (wf_topology (net_topology net)
      \<and> p_num_phases (parameters net) = num_phases (net_topology net)
      \<and> p_num_nodes (parameters net) = num_nodes (net_topology net)
      \<and> p_num_ports (parameters net) = num_ports (net_topology net)
      \<and> length (flows net) = p_num_flows (parameters net)
      \<and> (\<forall>f<p_num_flows (parameters net). egress (flows net ! f) < p_num_nodes (parameters net)))"

text \<open>
  What the search guarantees of its predecessor map: the predecessor of a vertex is the
  vertex itself, as set at the start of the search, or the head of an edge that leaves
  the vertex, as set when that edge is relaxed in the reversed graph.
\<close>

definition pred_ok :: "TemporalGraph \<Rightarrow> (nat \<Rightarrow> nat) \<Rightarrow> bool" where
  "pred_ok tg p =
     (\<forall>v<length (vertices (graph tg)).
        p v = v \<or> (\<exists>e\<in>set (edges (graph tg)). fst e = v \<and> fst (snd e) = p v))"

text \<open>
  \<open>readEnvVars\<close> accepts a number of paths from 1 to 8; the default is 2.
\<close>

definition params_ok :: "Params \<Rightarrow> bool" where
  "params_ok params = (1 \<le> numPaths params \<and> numPaths params \<le> 8)"

definition portSuccessors :: "TemporalGraph \<Rightarrow> nat \<Rightarrow> port_t set" where
  "portSuccessors tg v =
     {po. \<exists>e\<in>set (out_edges v (graph tg)). \<exists>pn.
            vertices (graph tg) ! fst (snd e) = VPort pn \<and> tport_port pn = po}"

subsection \<open>A three-port example\<close>

text \<open>
  Two phases, two nodes and three ports: ports 0 and 1 belong to node 0, port 2 to
  node 1. One flow runs from node 0 to node 1, and port 0 holds 9 packets for phase 1. The
  search result \<open>exDsp\<close> lists, for destination node 1, the predecessor and the distance
  of each of the twelve vertices.
\<close>

definition exTp :: Topology where
  "exTp = \<lparr>num_phases = 2, num_ports = 3, num_nodes = 2,
           topology = [1, 1, 0, 1, 1, 0], portOwner = [0, 0, 1]\<rparr>"

definition exNet :: Network where
  "exNet = \<lparr>parameters = \<lparr>p_num_phases = 2, p_num_nodes = 2, p_num_flows = 1, p_num_ports = 3,
                            capacities = [10, 10, 10], bandwidths = [1, 1, 1]\<rparr>,
            buffers = \<lparr>buf_values = [0, 0, 0, 9, 0, 0], buf_phases = 2, buf_ports = 3, buf_flows = 1\<rparr>,
            flows = [\<lparr>ingress = 0, egress = 1, amount = 3\<rparr>],
            net_topology = exTp\<rparr>"

definition exParams :: Params where
  "exParams = \<lparr>approach = quickest, numPaths = 2, alternativeTreshold = b64 (7 / 10)\<rparr>"

definition exDsp :: dijkstra where
  "exDsp g destVertex ap =
     ((\<lambda>v. [0, 1, 9, 1, 6, 1, 5, 5, 4, 3, 3, 2] ! v),
      (\<lambda>v. [2147483647, 0, 20001, 0, 20001, 0, 10001, 10001, 30002, 10001, 10001, 30002] ! v))"

subsection \<open>A network with a trap\<close>

text \<open>
  A network with a trap: one phase, four nodes and five ports. Node 0 owns port 0, which
  leads to node 2, and port 1, which leads to node 1; nodes 2 and 3 send to each other
  only (ports 2 and 3), and port 4 of node 1 leads to node 0. No port targets its owner,
  and the flow runs from node 0 to node 1. Vertices 0 to 3 are the nodes, 4 to 7 the
  phase-nodes and 8 to 12 the phase-ports. The search from node 1 over the reversed
  graph does not reach the vertex of port 0 (vertex 8), whose distance stays 2147483647;
  the vertex of port 1 (vertex 9) has distance 10001.
\<close>

definition trapTp :: Topology where
  "trapTp = \<lparr>num_phases = 1, num_ports = 5, num_nodes = 4,
             topology = [2, 1, 3, 2, 0], portOwner = [0, 0, 2, 3, 1]\<rparr>"

definition trapNet :: Network where
  "trapNet = \<lparr>parameters = \<lparr>p_num_phases = 1, p_num_nodes = 4, p_num_flows = 1, p_num_ports = 5,
                             capacities = [10, 10, 10, 10, 10], bandwidths = [1, 1, 1, 1, 1]\<rparr>,
              buffers = \<lparr>buf_values = [0, 0, 0, 0, 0], buf_phases = 1, buf_ports = 5,
                         buf_flows = 1\<rparr>,
              flows = [\<lparr>ingress = 0, egress = 1, amount = 1\<rparr>],
              net_topology = trapTp\<rparr>"

definition trapDsp :: dijkstra where
  "trapDsp g destVertex ap =
     ((\<lambda>v. [0, 1, 2, 3, 9, 1, 6, 7, 8, 5, 10, 11, 4] ! v),
      (\<lambda>v. [2147483647, 0, 2147483647, 2147483647, 20001, 0, 2147483647, 2147483647,
             2147483647, 10001, 2147483647, 2147483647, 30002] ! v))"

subsection \<open>A loaded port\<close>

definition exCap :: CapState where
  "exCap = \<lparr>cap_pSolutions = cap_constructSolutions exDsp exNet exParams, cap_params = exParams\<rparr>"





subsection \<open>Choice cache of the fixed variant\<close>

text \<open>
  The predecessor map that \<open>computeToDestination\<close> obtains from the shortest-path search for
  a destination (the first component of the search's result).
\<close>

definition pred_of :: "dijkstra \<Rightarrow> Params \<Rightarrow> TemporalGraph \<Rightarrow> node_t \<Rightarrow> nat \<Rightarrow> nat" where
  "pred_of dsp params tg destination =
     fst (dsp (graph tg) (vNodes tg ! destination) (approach params))"

text \<open>
  Invariant of the choice cache of the fixed variant: every entry is the choice that
  \<open>computeToDestination\<close> computes for its key.
\<close>

definition cache_consistent :: "dijkstra \<Rightarrow> Params \<Rightarrow> TemporalGraph \<Rightarrow> ChoiceCache \<Rightarrow> bool" where
  "cache_consistent dsp params tg cache =
     (\<forall>key c. cache key = Some c \<longrightarrow>
        computeChoice tg (pred_of dsp params tg (ca_destination key)) (ca_phase key) (ca_node key)
          = Some c)"

text \<open>
  The destination is reachable from every phase-node: the search has given each of them a
  predecessor other than itself (a vertex the search never reaches keeps itself as
  predecessor).
\<close>

definition all_reach :: "TemporalGraph \<Rightarrow> Network \<Rightarrow> (nat \<Rightarrow> nat) \<Rightarrow> bool" where
  "all_reach tg net p =
     list_all (\<lambda>i. list_all (\<lambda>m. p (vPN tg ! pnIndex tg i m) \<noteq> vPN tg ! pnIndex tg i m)
                      [0..<p_num_nodes (parameters net)])
       [0..<p_num_phases (parameters net)]"

text \<open>
  The body of the two loops of \<open>computeToDestination\<close>: the choice for one phase and node,
  stored under its key.
\<close>

definition storeChoice ::
  "TemporalGraph \<Rightarrow> (nat \<Rightarrow> nat) \<Rightarrow> node_t \<Rightarrow> phase_t \<Rightarrow> node_t \<Rightarrow> ChoiceCache \<Rightarrow> ChoiceCache option" where
  "storeChoice tg p destination i from_node cache =
     (case computeChoice tg p i from_node of
        None \<Rightarrow> None
      | Some c \<Rightarrow>
          Some (cache(\<lparr>ca_phase = i, ca_node = from_node, ca_destination = destination\<rparr> \<mapsto> c)))"

subsection \<open>A network with an unreachable egress\<close>

definition exRnd :: RndState where
  "exRnd = \<lparr>rnd_pSolutions = rnd_constructSolutions exDsp exNet exParams,
            random_num = 5, random_gen = 0\<rparr>"

text \<open>
  A network in which a flow's egress cannot be reached: one phase, three nodes with one port
  each; the port of node 0 leads to node 1, the ports of nodes 1 and 2 lead to node 0, and
  the flow runs from node 0 to node 2. No port targets its owner and the flow's ingress
  differs from its egress. Vertices 0 to 2 are the nodes, 3 to 5 the phase-nodes and 6 to 8
  the phase-ports; the only edge into vertex 2 (node 2) leaves vertex 5 (its phase-node),
  and no edge enters vertex 5. A search from vertex 2 over the reversed graph therefore
  reaches vertices 2 and 5 only, and every other vertex keeps itself as predecessor.
\<close>

definition isoTp :: Topology where
  "isoTp = \<lparr>num_phases = 1, num_ports = 3, num_nodes = 3,
            topology = [1, 0, 0], portOwner = [0, 1, 2]\<rparr>"

definition isoNet :: Network where
  "isoNet = \<lparr>parameters = \<lparr>p_num_phases = 1, p_num_nodes = 3, p_num_flows = 1, p_num_ports = 3,
                            capacities = [10, 10, 10], bandwidths = [1, 1, 1]\<rparr>,
             buffers = \<lparr>buf_values = [0, 0, 0], buf_phases = 1, buf_ports = 3, buf_flows = 1\<rparr>,
             flows = [\<lparr>ingress = 0, egress = 2, amount = 1\<rparr>],
             net_topology = isoTp\<rparr>"

definition isoDsp :: dijkstra where
  "isoDsp g destVertex ap =
     ((\<lambda>v. [0, 1, 2, 3, 4, 2, 6, 7, 8] ! v),
      (\<lambda>v. [2147483647, 2147483647, 0, 2147483647, 2147483647, 0,
             2147483647, 2147483647, 2147483647] ! v))"

definition isoM :: Model where
  "isoM = \<lparr>NUM_PHASES = 1, NUM_NODES = 3, NUM_FLOWS = 1, NUM_PORTS = 3,
           PORT_OWNER = (\<lambda>p. [0, 1, 2] ! p), PORT_CAPACITIES = (\<lambda>_. 10),
           PORT_BANDWIDTHS = (\<lambda>_. 1), TOPOLOGY = (\<lambda>i p. [1, 0, 0] ! p),
           FLOWS = (\<lambda>f. \<lparr>ingress = 0, egress = 2, amount = 1\<rparr>),
           SCHEDULE_TOGGLE = []\<rparr>"

definition isoRnd :: RndState where
  "isoRnd = \<lparr>rnd_pSolutions = rnd_constructSolutions isoDsp isoNet exParams,
             random_num = 5, random_gen = 0\<rparr>"

definition isoCap :: CapState where
  "isoCap = \<lparr>cap_pSolutions = cap_constructSolutions isoDsp isoNet exParams,
             cap_params = exParams\<rparr>"

subsection \<open>Prepare windows\<close>

text \<open>
  A prepare window: the queries \<open>(phase, node, flow)\<close> that the simulator passes to
  \<open>extGetScheduleChoice\<close> between two calls of \<open>extPrepareChoices\<close>, answered in order. A
  query reads the scheduler's state and returns it, possibly updated, with the choice; a
  query that fails ends the run.
\<close>

type_synonym query = "phase_t \<times> node_t \<times> flow_t"

fun answers :: "('st \<Rightarrow> query \<Rightarrow> (ScheduleChoice \<times> 'st) option) \<Rightarrow> 'st \<Rightarrow> query list
                  \<Rightarrow> ScheduleChoice list option" where
  "answers step st [] = Some []"
| "answers step st (q # qs) =
     (case step st q of
        None \<Rightarrow> None
      | Some (a, st') \<Rightarrow>
          (case answers step st' qs of None \<Rightarrow> None | Some as \<Rightarrow> Some (a # as)))"

text \<open>
  The randomized variant reads \<open>pSolutions\<close> and \<open>random_num\<close> and writes neither; the
  capacity-aware variant reads \<open>pSolutions\<close>, its parameters and the buffer mirror of
  \<open>network\<close>, which only \<open>extPushBuffers\<close> writes; the fixed variant reads and fills its cache.
\<close>

definition rnd_query :: "RndState \<Rightarrow> query \<Rightarrow> (ScheduleChoice \<times> RndState) option" where
  "rnd_query st q =
     (case q of (phase_i, node, flow) \<Rightarrow>
        (case rnd_customGetScheduleChoice st phase_i node flow of
           None \<Rightarrow> None | Some c \<Rightarrow> Some (c, st)))"

definition cap_query ::
  "CapState \<times> Network \<Rightarrow> query \<Rightarrow> (ScheduleChoice \<times> (CapState \<times> Network)) option" where
  "cap_query st q =
     (case q of (phase_i, node, flow) \<Rightarrow>
        (case cap_customGetScheduleChoice (fst st) (snd st) phase_i node flow of
           None \<Rightarrow> None | Some c \<Rightarrow> Some (c, st)))"

definition fixed_query ::
  "dijkstra \<Rightarrow> Params \<Rightarrow> Network \<Rightarrow> TemporalGraph \<Rightarrow> ChoiceCache \<Rightarrow> query
     \<Rightarrow> (ScheduleChoice \<times> ChoiceCache) option" where
  "fixed_query dsp params net tg cache q =
     (case q of (phase_i, node, flow) \<Rightarrow> cachedChoice dsp params net tg cache phase_i node flow)"

definition exQueries :: "query list" where
  "exQueries = [(0, 0, 0), (1, 0, 0), (0, 1, 0), (0, 0, 0)]"

section \<open>Properties\<close>

subsection \<open>Buffer totals\<close>

lemma upd3_apply:
  "upd3 b j p f v j' p' f' = (if j' = j \<and> p' = p \<and> f' = f then v else b j' p' f')"
  by (simp add: upd3_def)

lemma sum_single_cell:
  fixes d :: int and j p f P Q F :: nat
  assumes "j < P" "p < Q" "f < F"
  shows "(\<Sum>j'<P. \<Sum>p'<Q. \<Sum>f'<F. (if j' = j \<and> p' = p \<and> f' = f then d else 0)) = d"
proof -
  have a: "(\<Sum>f'<F. (if j' = j \<and> p' = p \<and> f' = f then d else 0))
             = (if j' = j \<and> p' = p then d else 0)" for j' p'
    using assms(3) by (cases "j' = j"; cases "p' = p") (simp_all add: sum.delta)
  have b: "(\<Sum>p'<Q. (if j' = j \<and> p' = p then d else 0)) = (if j' = j then d else 0)" for j'
    using assms(2) by (cases "j' = j") (simp_all add: sum.delta)
  show ?thesis using assms(1) by (simp only: a b) (simp add: sum.delta)
qed

lemma total3_upd3:
  assumes "j < NUM_PHASES M" "p < NUM_PORTS M" "f < NUM_FLOWS M"
  shows "total3 M (upd3 b j p f v) = total3 M b + (v - b j p f)"
proof -
  have "total3 M (upd3 b j p f v)
      = (\<Sum>j'<NUM_PHASES M. \<Sum>p'<NUM_PORTS M. \<Sum>f'<NUM_FLOWS M.
           (b j' p' f' + (if j' = j \<and> p' = p \<and> f' = f then v - b j p f else 0)))"
    unfolding total3_def by (intro sum.cong refl) (auto simp: upd3_apply)
  also have "\<dots> = total3 M b + (v - b j p f)"
    unfolding total3_def by (simp only: sum.distrib sum_single_cell [OF assms])
  finally show ?thesis .
qed

lemma sending_cong:
  "gPortBuffers s = gPortBuffers s' \<Longrightarrow> sending M s i p f = sending M s' i p f"
  by (simp add: sending_def portBuffered_def Let_def)

lemma calcSentFlow_fold:
  "fold (calcSentFlow M s i p) [0..<k] (a0, snt) =
     (a0 + (\<Sum>f<k. sending M s i p f),
      (\<lambda>j' p' f'. if j' = i \<and> p' = p \<and> f' < k then sending M s i p f' else snt j' p' f'))"
proof (induction k)
  case 0
  show ?case by simp
next
  case (Suc k)
  have "fold (calcSentFlow M s i p) [0..<Suc k] (a0, snt)
          = calcSentFlow M s i p k (fold (calcSentFlow M s i p) [0..<k] (a0, snt))"
    by simp
  also have "\<dots> = (a0 + (\<Sum>f<Suc k. sending M s i p f),
      (\<lambda>j' p' f'. if j' = i \<and> p' = p \<and> f' < Suc k then sending M s i p f'
                    else snt j' p' f'))"
    unfolding Suc
    by (auto simp: calcSentFlow_def Let_def upd3_apply fun_eq_iff less_Suc_eq)
  finally show ?case .
qed

lemma calcSentPort_frame:
  "gPortBuffers (snd (calcSentPort M i p acc)) = gPortBuffers (snd acc)
   \<and> gDidOverflow (snd (calcSentPort M i p acc)) = gDidOverflow (snd acc)
   \<and> gCurrentPhase (snd (calcSentPort M i p acc)) = gCurrentPhase (snd acc)"
  by (simp add: calcSentPort_def Let_def)

lemma calcSentPort_sent:
  "fst (calcSentPort M i p (snt, s)) =
     (\<lambda>j' p' f'. if j' = i \<and> p' = p \<and> f' < NUM_FLOWS M then sending M s i p f' else snt j' p' f')"
  by (simp add: calcSentPort_def Let_def calcSentFlow_fold)

lemma calcSentPort_fold:
  "fst (fold (calcSentPort M i) [0..<k] (snt, s)) =
     (\<lambda>j' p' f'. if j' = i \<and> p' < k \<and> f' < NUM_FLOWS M then sending M s i p' f' else snt j' p' f')
   \<and> gPortBuffers (snd (fold (calcSentPort M i) [0..<k] (snt, s))) = gPortBuffers s
   \<and> gDidOverflow (snd (fold (calcSentPort M i) [0..<k] (snt, s))) = gDidOverflow s
   \<and> gCurrentPhase (snd (fold (calcSentPort M i) [0..<k] (snt, s))) = gCurrentPhase s"
proof (induction k)
  case 0
  show ?case by simp
next
  case (Suc k)
  define acc where "acc = fold (calcSentPort M i) [0..<k] (snt, s)"
  have acc: "acc = (fst acc, snd acc)" by simp
  have b: "gPortBuffers (snd acc) = gPortBuffers s" using Suc by (simp add: acc_def)
  have "fst (calcSentPort M i k acc) =
     (\<lambda>j' p' f'. if j' = i \<and> p' = k \<and> f' < NUM_FLOWS M then sending M (snd acc) i k f'
                  else fst acc j' p' f')"
    by (subst acc) (simp only: calcSentPort_sent)
  also have "\<dots> = (\<lambda>j' p' f'. if j' = i \<and> p' < Suc k \<and> f' < NUM_FLOWS M
                  then sending M s i p' f' else snt j' p' f')"
    using Suc sending_cong [OF b]
    by (auto simp: acc_def [symmetric] fun_eq_iff less_Suc_eq)
  finally show ?case
    using Suc calcSentPort_frame [of M i k acc]
    by (simp add: acc_def [symmetric])
qed

lemma calcSent_sent:
  "fst (calcSent M i s) =
     (\<lambda>j p f. if j = i \<and> p < NUM_PORTS M \<and> f < NUM_FLOWS M then sending M s i p f else 0)"
  by (simp add: calcSent_def calcSentPort_fold)

lemma calcSent_frame:
  "gPortBuffers (snd (calcSent M i s)) = gPortBuffers s"
  "gDidOverflow (snd (calcSent M i s)) = gDidOverflow s"
  "gCurrentPhase (snd (calcSent M i s)) = gCurrentPhase s"
  by (simp_all add: calcSent_def calcSentPort_fold)

lemma calcRecvPort_total:
  assumes "ext_in_range M ext" "f < NUM_FLOWS M"
  shows "total3 M (calcRecvPort M ext i sent f p recv) =
           total3 M recv + (if TOPOLOGY M i p \<noteq> egress (FLOWS M f) then sent i p f else 0)"
  using assms
  by (simp add: calcRecvPort_def Let_def getChoice_def total3_upd3 ext_in_range_def)

lemma calcRecvPort_fold_total:
  assumes "ext_in_range M ext" "f < NUM_FLOWS M"
  shows "total3 M (fold (calcRecvPort M ext i sent f) [0..<k] recv) =
           total3 M recv
           + (\<Sum>p<k. if TOPOLOGY M i p \<noteq> egress (FLOWS M f) then sent i p f else 0)"
  by (induction k) (simp_all add: calcRecvPort_total [OF assms])

lemma calcRecv_fold_total:
  assumes "ext_in_range M ext" "k \<le> NUM_FLOWS M"
  shows "total3 M (fold (\<lambda>f. fold (calcRecvPort M ext i sent f) [0..<NUM_PORTS M]) [0..<k] recv) =
           total3 M recv
           + (\<Sum>f<k. \<Sum>p<NUM_PORTS M.
                if TOPOLOGY M i p \<noteq> egress (FLOWS M f) then sent i p f else 0)"
  using assms(2)
proof (induction k)
  case 0
  show ?case by simp
next
  case (Suc k)
  then have "k < NUM_FLOWS M" "k \<le> NUM_FLOWS M" by simp_all
  then show ?case
    using Suc.IH by (simp add: calcRecvPort_fold_total [OF assms(1)])
qed

lemma total3_zero: "total3 M (\<lambda>_ _ _. 0) = 0"
  by (simp add: total3_def)

lemma calcRecv_total:
  assumes "ext_in_range M ext"
  shows "total3 M (calcRecv M ext i sent) =
           (\<Sum>f<NUM_FLOWS M. \<Sum>p<NUM_PORTS M.
                if TOPOLOGY M i p \<noteq> egress (FLOWS M f) then sent i p f else 0)"
  unfolding calcRecv_def
  by (simp add: calcRecv_fold_total [OF assms] total3_zero)

lemma applySendRecv_total:
  "total3 M (gPortBuffers (applySendRecv M sent recv s)) =
     total3 M (gPortBuffers s) + total3 M recv - total3 M sent"
  by (simp add: applySendRecv_def total3_def sum.distrib sum_subtractf algebra_simps)

lemma total3_sent:
  assumes "i < NUM_PHASES M"
  shows "total3 M (\<lambda>j p f. if j = i \<and> p < NUM_PORTS M \<and> f < NUM_FLOWS M then g p f else 0) =
           (\<Sum>f<NUM_FLOWS M. \<Sum>p<NUM_PORTS M. g p f)"
proof -
  have "total3 M (\<lambda>j p f. if j = i \<and> p < NUM_PORTS M \<and> f < NUM_FLOWS M then g p f else 0) =
        (\<Sum>j<NUM_PHASES M. if j = i then (\<Sum>p<NUM_PORTS M. \<Sum>f<NUM_FLOWS M. g p f) else 0)"
    unfolding total3_def by (intro sum.cong refl) auto
  also have "\<dots> = (\<Sum>p<NUM_PORTS M. \<Sum>f<NUM_FLOWS M. g p f)"
    using assms by (simp add: sum.delta)
  also have "\<dots> = (\<Sum>f<NUM_FLOWS M. \<Sum>p<NUM_PORTS M. g p f)"
    by (rule sum.swap)
  finally show ?thesis .
qed

lemma addIngressFlow_total:
  assumes "ext_in_range M ext" "f < NUM_FLOWS M"
  shows "total3 M (gPortBuffers (addIngressFlow M ext i f s)) =
           total3 M (gPortBuffers s) + amount (FLOWS M f)"
  using assms
  by (simp add: addIngressFlow_def Let_def getChoice_def total3_upd3 ext_in_range_def)

lemma addIngress_fold_total:
  assumes "ext_in_range M ext" "k \<le> NUM_FLOWS M"
  shows "total3 M (gPortBuffers (fold (addIngressFlow M ext i) [0..<k] s)) =
           total3 M (gPortBuffers s) + (\<Sum>f<k. amount (FLOWS M f))"
  using assms(2)
proof (induction k)
  case 0
  show ?case by simp
next
  case (Suc k)
  then have "k < NUM_FLOWS M" "k \<le> NUM_FLOWS M" by simp_all
  then show ?case
    using Suc.IH by (simp add: addIngressFlow_total [OF assms(1)])
qed

lemma addIngress_total:
  assumes "ext_in_range M ext"
  shows "total3 M (gPortBuffers (addIngress M ext i s)) =
           total3 M (gPortBuffers s) + (\<Sum>f<NUM_FLOWS M. amount (FLOWS M f))"
  by (simp add: addIngress_def addIngress_fold_total [OF assms])

lemma updateValidState_from_buffers:
  "gPortBuffers (snd (updateValidState_from M ps s)) = gPortBuffers s"
  by (induction ps) simp_all

lemma updateValidState_buffers:
  "gPortBuffers (snd (updateValidState M s)) = gPortBuffers s"
  by (simp add: updateValidState_def updateValidState_from_buffers)

lemma nextPhase_buffers: "gPortBuffers (nextPhase M s) = gPortBuffers s"
  by (simp add: nextPhase_def Let_def)

subsection \<open>Rescheduling\<close>

lemma fold_opt_append:
  "fold_opt f (xs @ ys) s = (case fold_opt f xs s of None \<Rightarrow> None | Some s' \<Rightarrow> fold_opt f ys s')"
  by (induction xs arbitrary: s) (auto split: option.splits)

lemma rescheduleDelta_fold:
  "fold_opt (rescheduleDelta M ext s ph f) [0..<k] d0 =
     (if asserts_ok M ext ph f k
      then Some (\<lambda>j p. d0 j p + moved_in M ext (gPortBuffers s) ph f k j p
                        - (if j = ph \<and> p < k then gPortBuffers s ph p f else 0))
      else None)"
proof (induction k)
  case 0
  show ?case by (simp add: asserts_ok_def moved_in_def)
next
  case (Suc k)
  show ?case
  proof (cases "asserts_ok M ext ph f k")
    case False
    then have "\<not> asserts_ok M ext ph f (Suc k)"
      by (auto simp: asserts_ok_def intro: less_SucI)
    with False Suc show ?thesis by (simp add: fold_opt_append)
  next
    case True
    show ?thesis
    proof (cases "PORT_OWNER M (port (ext ph (PORT_OWNER M k) f)) = PORT_OWNER M k")
      case False
      then have "\<not> asserts_ok M ext ph f (Suc k)" by (auto simp: asserts_ok_def)
      with False True Suc show ?thesis
        by (simp add: fold_opt_append rescheduleDelta_def getChoice_def Let_def)
    next
      case ok: True
      with True have "asserts_ok M ext ph f (Suc k)"
        by (auto simp: asserts_ok_def less_Suc_eq)
      with ok True Suc show ?thesis
        by (auto simp: fold_opt_append rescheduleDelta_def getChoice_def Let_def
            moved_in_def fun_eq_iff)
    qed
  qed
qed

lemma rescheduleFlow_eq:
  "rescheduleFlow M ext ph f s =
     (if asserts_ok M ext ph f (NUM_PORTS M)
      then Some (s\<lparr>gPortBuffers :=
             (\<lambda>j p g. if g = f \<and> p < NUM_PORTS M \<and> j < NUM_PHASES M
                then gPortBuffers s j p f
                       + (moved_in M ext (gPortBuffers s) ph f (NUM_PORTS M) j p
                          - (if j = ph then gPortBuffers s ph p f else 0))
                else gPortBuffers s j p g)\<rparr>)
      else None)"
  by (auto simp: rescheduleFlow_def rescheduleDelta_fold fun_eq_iff intro!: State.equality)

lemma moved_in_nonzero:
  assumes "moved_in M ext b ph f k j p \<noteq> 0"
  shows "\<exists>q<k. phase (ext ph (PORT_OWNER M q) f) = j \<and> port (ext ph (PORT_OWNER M q) f) = p"
proof (rule ccontr)
  assume "\<not> ?thesis"
  then have "moved_in M ext b ph f k j p = 0"
    unfolding moved_in_def by (intro sum.neutral) auto
  with assms show False by simp
qed

lemma rescheduleFlow_settles:
  assumes "rescheduleFlow M ext ph f s = Some s'" "ph < NUM_PHASES M"
  shows "settled M ext ph f (gPortBuffers s')"
proof -
  have ok: "asserts_ok M ext ph f (NUM_PORTS M)"
    using assms(1) by (simp add: rescheduleFlow_eq split: if_splits)
  have b': "gPortBuffers s' ph q f = moved_in M ext (gPortBuffers s) ph f (NUM_PORTS M) ph q"
    if "q < NUM_PORTS M" for q
    using assms that ok by (auto simp: rescheduleFlow_eq)
  show ?thesis
    unfolding settled_def
  proof (intro allI impI)
    fix q assume q: "q < NUM_PORTS M" and nz: "gPortBuffers s' ph q f \<noteq> 0"
    from nz b' [OF q] obtain r where r: "r < NUM_PORTS M"
      "phase (ext ph (PORT_OWNER M r) f) = ph" "port (ext ph (PORT_OWNER M r) f) = q"
      using moved_in_nonzero by metis
    from ok r have "PORT_OWNER M q = PORT_OWNER M r" by (auto simp: asserts_ok_def)
    with r show "phase (ext ph (PORT_OWNER M q) f) = ph \<and> port (ext ph (PORT_OWNER M q) f) = q"
      by simp
  qed
qed

lemma moved_in_settled:
  assumes "settled M ext ph f b"
  shows "moved_in M ext b ph f (NUM_PORTS M) j p
           = (if j = ph \<and> p < NUM_PORTS M then b ph p f else 0)"
proof -
  have cell: "(if phase (ext ph (PORT_OWNER M q) f) = j \<and> port (ext ph (PORT_OWNER M q) f) = p
               then b ph q f else 0)
              = (if q = p then (if j = ph then b ph q f else 0) else 0)"
    if q: "q < NUM_PORTS M" for q
  proof (cases "b ph q f = 0")
    case True
    show ?thesis unfolding True by simp
  next
    case False
    with assms q have "phase (ext ph (PORT_OWNER M q) f) = ph"
      "port (ext ph (PORT_OWNER M q) f) = q"
      unfolding settled_def by blast+
    then show ?thesis by (simp add: eq_commute)
  qed
  have "moved_in M ext b ph f (NUM_PORTS M) j p
          = (\<Sum>q<NUM_PORTS M. if q = p then (if j = ph then b ph q f else 0) else 0)"
    unfolding moved_in_def by (rule sum.cong) (simp_all only: cell lessThan_iff)
  also have "\<dots> = (if j = ph \<and> p < NUM_PORTS M then b ph p f else 0)"
    by (simp add: sum.delta)
  finally show ?thesis .
qed

lemma rescheduleFlow_settled:
  assumes "settled M ext ph f (gPortBuffers t)" "asserts_ok M ext ph f (NUM_PORTS M)"
  shows "rescheduleFlow M ext ph f t = Some t"
proof -
  have "(\<lambda>j p g. if g = f \<and> p < NUM_PORTS M \<and> j < NUM_PHASES M
                then gPortBuffers t j p f
                       + (moved_in M ext (gPortBuffers t) ph f (NUM_PORTS M) j p
                          - (if j = ph then gPortBuffers t ph p f else 0))
                else gPortBuffers t j p g) = gPortBuffers t"
    by (auto simp: fun_eq_iff moved_in_settled [OF assms(1)])
  then show ?thesis using assms(2) by (simp add: rescheduleFlow_eq)
qed

lemma rescheduleFlow_other:
  assumes "rescheduleFlow M ext ph f s = Some s'" "g \<noteq> f"
  shows "gPortBuffers s' j p g = gPortBuffers s j p g"
  using assms by (auto simp: rescheduleFlow_eq split: if_splits)

lemma settled_cong:
  assumes "\<And>q. b' ph q f = b ph q f"
  shows "settled M ext ph f b' = settled M ext ph f b"
  using assms by (simp add: settled_def)

lemma reschedule_fold_settles:
  assumes "fold_opt (rescheduleFlow M ext ph) [0..<k] s = Some s'" "ph < NUM_PHASES M"
  shows "\<forall>f<k. settled M ext ph f (gPortBuffers s') \<and> asserts_ok M ext ph f (NUM_PORTS M)"
  using assms(1)
proof (induction k arbitrary: s')
  case 0
  show ?case by simp
next
  case (Suc k)
  from Suc.prems obtain t where t: "fold_opt (rescheduleFlow M ext ph) [0..<k] s = Some t"
    and s': "rescheduleFlow M ext ph k t = Some s'"
    by (auto simp: fold_opt_append split: option.splits)
  have ok: "asserts_ok M ext ph k (NUM_PORTS M)"
    using s' by (simp add: rescheduleFlow_eq split: if_splits)
  have new: "settled M ext ph k (gPortBuffers s')"
    using rescheduleFlow_settles [OF s' assms(2)] .
  have old: "settled M ext ph f (gPortBuffers s')" if "f < k" for f
  proof -
    have "f \<noteq> k" using that by simp
    then have "\<And>q. gPortBuffers s' ph q f = gPortBuffers t ph q f"
      using rescheduleFlow_other [OF s'] by simp
    then show ?thesis
      using Suc.IH [OF t] that settled_cong [of "gPortBuffers s'" ph f "gPortBuffers t" M ext] by simp
  qed
  show ?case using Suc.IH [OF t] ok new old by (auto simp: less_Suc_eq)
qed

lemma reschedule_fold_fixed:
  assumes "\<forall>f<k. settled M ext ph f (gPortBuffers t) \<and> asserts_ok M ext ph f (NUM_PORTS M)"
  shows "fold_opt (rescheduleFlow M ext ph) [0..<k] t = Some t"
  using assms
proof (induction k)
  case 0
  show ?case by simp
next
  case (Suc k)
  then show ?case
    by (simp add: fold_opt_append rescheduleFlow_settled)
qed

lemma reschedule_idem:
  assumes "ph < NUM_PHASES M" "reschedule M ext ph s = Some s'"
  shows "reschedule M ext ph s' = Some s'"
  using reschedule_fold_settles [OF assms(2) [unfolded reschedule_def] assms(1)]
  unfolding reschedule_def by (rule reschedule_fold_fixed)

subsection \<open>Conservation\<close>

lemma sum_single_cell2:
  fixes d :: int and j p P Q :: nat
  assumes "j < P" "p < Q"
  shows "(\<Sum>j'<P. \<Sum>p'<Q. (if j = j' \<and> p = p' then d else 0)) = d"
proof -
  have b: "(\<Sum>p'<Q. (if j = j' \<and> p = p' then d else 0)) = (if j' = j then d else 0)" for j'
    using assms(2) by (cases "j' = j") (auto simp: sum.delta')
  show ?thesis using assms(1) by (simp only: b) (simp add: sum.delta)
qed

lemma moved_in_total:
  assumes "ext_in_range M ext"
  shows "(\<Sum>j<NUM_PHASES M. \<Sum>p<NUM_PORTS M. moved_in M ext b ph f (NUM_PORTS M) j p)
           = (\<Sum>q<NUM_PORTS M. b ph q f)"
proof -
  define X where "X = (\<lambda>q j p.
           if phase (ext ph (PORT_OWNER M q) f) = j \<and> port (ext ph (PORT_OWNER M q) f) = p
           then b ph q f else 0)"
  have sw: "(\<Sum>p<NUM_PORTS M. \<Sum>q<NUM_PORTS M. X q j p)
              = (\<Sum>q<NUM_PORTS M. \<Sum>p<NUM_PORTS M. X q j p)" for j
    by (rule sum.swap)
  have m: "moved_in M ext b ph f (NUM_PORTS M) j p = (\<Sum>q<NUM_PORTS M. X q j p)" for j p
    by (simp add: moved_in_def X_def)
  have "(\<Sum>j<NUM_PHASES M. \<Sum>p<NUM_PORTS M. moved_in M ext b ph f (NUM_PORTS M) j p)
      = (\<Sum>j<NUM_PHASES M. \<Sum>q<NUM_PORTS M. \<Sum>p<NUM_PORTS M. X q j p)"
    by (simp only: m sw)
  also have "\<dots> = (\<Sum>q<NUM_PORTS M. \<Sum>j<NUM_PHASES M. \<Sum>p<NUM_PORTS M. X q j p)"
    by (rule sum.swap)
  also have "\<dots> = (\<Sum>q<NUM_PORTS M. b ph q f)"
    unfolding X_def
    using assms by (intro sum.cong refl sum_single_cell2) (auto simp: ext_in_range_def)
  finally show ?thesis .
qed

lemma total3_flow_shift:
  assumes "f < NUM_FLOWS M"
  shows "total3 M (\<lambda>j p g. if g = f \<and> p < NUM_PORTS M \<and> j < NUM_PHASES M
                          then b j p f + d j p else b j p g)
           = total3 M b + (\<Sum>j<NUM_PHASES M. \<Sum>p<NUM_PORTS M. d j p)"
proof -
  have "total3 M (\<lambda>j p g. if g = f \<and> p < NUM_PORTS M \<and> j < NUM_PHASES M
                          then b j p f + d j p else b j p g)
      = (\<Sum>j<NUM_PHASES M. \<Sum>p<NUM_PORTS M. \<Sum>g<NUM_FLOWS M.
           (b j p g + (if g = f then d j p else 0)))"
    unfolding total3_def by (intro sum.cong refl) auto
  also have "\<dots> = total3 M b + (\<Sum>j<NUM_PHASES M. \<Sum>p<NUM_PORTS M. d j p)"
    unfolding total3_def using assms by (simp add: sum.distrib sum.delta)
  finally show ?thesis .
qed

lemma rescheduleFlow_total:
  assumes "ext_in_range M ext" "ph < NUM_PHASES M" "f < NUM_FLOWS M"
    "rescheduleFlow M ext ph f s = Some s'"
  shows "total3 M (gPortBuffers s') = total3 M (gPortBuffers s)"
proof -
  have ok: "asserts_ok M ext ph f (NUM_PORTS M)"
    using assms(4) by (simp add: rescheduleFlow_eq split: if_splits)
  have "(\<Sum>j<NUM_PHASES M. \<Sum>p<NUM_PORTS M. if j = ph then gPortBuffers s ph p f else 0)
          = (\<Sum>p<NUM_PORTS M. gPortBuffers s ph p f)"
  proof -
    have "(\<Sum>j<NUM_PHASES M. \<Sum>p<NUM_PORTS M. if j = ph then gPortBuffers s ph p f else 0)
        = (\<Sum>j<NUM_PHASES M. if j = ph then (\<Sum>p<NUM_PORTS M. gPortBuffers s ph p f) else 0)"
      by (intro sum.cong refl) auto
    then show ?thesis using assms(2) by (simp add: sum.delta)
  qed
  then have zero: "(\<Sum>j<NUM_PHASES M. \<Sum>p<NUM_PORTS M.
            (moved_in M ext (gPortBuffers s) ph f (NUM_PORTS M) j p
               - (if j = ph then gPortBuffers s ph p f else 0))) = 0"
    by (simp add: sum_subtractf moved_in_total [OF assms(1)])
  have eq: "gPortBuffers s' = (\<lambda>j p g. if g = f \<and> p < NUM_PORTS M \<and> j < NUM_PHASES M
                then gPortBuffers s j p f
                       + (moved_in M ext (gPortBuffers s) ph f (NUM_PORTS M) j p
                          - (if j = ph then gPortBuffers s ph p f else 0))
                else gPortBuffers s j p g)"
    using assms(4) ok by (auto simp: rescheduleFlow_eq)
  show ?thesis
    unfolding eq
    using total3_flow_shift [OF assms(3), of "gPortBuffers s"
        "\<lambda>j p. moved_in M ext (gPortBuffers s) ph f (NUM_PORTS M) j p
                          - (if j = ph then gPortBuffers s ph p f else 0)"] zero
    by simp
qed

lemma fold_opt_invariant:
  assumes "fold_opt f xs s = Some s'" "I s"
    "\<And>x t t'. x \<in> set xs \<Longrightarrow> I t \<Longrightarrow> f x t = Some t' \<Longrightarrow> I t'"
  shows "I s'"
  using assms
proof (induction xs arbitrary: s)
  case Nil
  then show ?case by simp
next
  case (Cons x xs)
  from Cons.prems(1) obtain t where t: "f x s = Some t" and r: "fold_opt f xs t = Some s'"
    by (auto split: option.splits)
  have "I t" using Cons.prems(3) [of x s t] Cons.prems(2) t by simp
  moreover have "I u'" if "y \<in> set xs" "I u" "f y u = Some u'" for y u u'
    using Cons.prems(3) [of y u u'] that by simp
  ultimately show ?case using Cons.IH [OF r] by blast
qed

lemma reschedule_total:
  assumes "ext_in_range M ext" "ph < NUM_PHASES M" "reschedule M ext ph s = Some s'"
  shows "total3 M (gPortBuffers s') = total3 M (gPortBuffers s)"
proof (rule fold_opt_invariant
    [where I = "\<lambda>t. total3 M (gPortBuffers t) = total3 M (gPortBuffers s)",
      OF assms(3) [unfolded reschedule_def]])
  show "total3 M (gPortBuffers s) = total3 M (gPortBuffers s)" by simp
next
  fix x t t'
  assume "x \<in> set [0..<NUM_FLOWS M]" "total3 M (gPortBuffers t) = total3 M (gPortBuffers s)"
    "rescheduleFlow M ext ph x t = Some t'"
  then show "total3 M (gPortBuffers t') = total3 M (gPortBuffers s)"
    using rescheduleFlow_total [OF assms(1,2), of x t t'] by simp
qed

lemma reschedule_toggle_total:
  assumes "ext_in_range M ext" "\<forall>ph\<in>set phs. ph < NUM_PHASES M"
    "fold_opt (reschedule M ext) phs s = Some s'"
  shows "total3 M (gPortBuffers s') = total3 M (gPortBuffers s)"
proof (rule fold_opt_invariant
    [where I = "\<lambda>t. total3 M (gPortBuffers t) = total3 M (gPortBuffers s)", OF assms(3)])
  show "total3 M (gPortBuffers s) = total3 M (gPortBuffers s)" by simp
next
  fix x t t'
  assume "x \<in> set phs" "total3 M (gPortBuffers t) = total3 M (gPortBuffers s)"
    "reschedule M ext x t = Some t'"
  then show "total3 M (gPortBuffers t') = total3 M (gPortBuffers s)"
    using reschedule_total [OF assms(1), of x t t'] assms(2) by simp
qed

lemma simulatePhase_conservation:
  assumes "ext_in_range M ext" "\<forall>ph\<in>set (SCHEDULE_TOGGLE M). ph < NUM_PHASES M"
    "gCurrentPhase s < NUM_PHASES M"
    "simulatePhase M ext s = Some s'"
  shows "total3 M (gPortBuffers s') =
           total3 M (gPortBuffers s) + (\<Sum>f<NUM_FLOWS M. amount (FLOWS M f)) - delivered M s"
proof -
  define i where "i = gCurrentPhase s"
  define sent where "sent = fst (calcSent M i s)"
  define recv where "recv = calcRecv M ext i sent"
  define s2 where "s2 = applySendRecv M sent recv (snd (calcSent M i s))"
  from assms(4) obtain s3 where s3: "fold_opt (reschedule M ext) (SCHEDULE_TOGGLE M) s2 = Some s3"
    and s': "s' = nextPhase M (snd (updateValidState M (addIngress M ext i s3)))"
    by (auto simp: simulatePhase_def Let_def i_def sent_def recv_def s2_def split: option.splits)
  have sent_eq: "sent = (\<lambda>j p f. if j = i \<and> p < NUM_PORTS M \<and> f < NUM_FLOWS M
                                then sending M s i p f else 0)"
    by (simp add: sent_def calcSent_sent)
  have tsent: "total3 M sent = (\<Sum>f<NUM_FLOWS M. \<Sum>p<NUM_PORTS M. sending M s i p f)"
    unfolding sent_eq using assms(3) by (simp only: total3_sent i_def)
  have trecv: "total3 M recv = (\<Sum>f<NUM_FLOWS M. \<Sum>p<NUM_PORTS M.
                if TOPOLOGY M i p \<noteq> egress (FLOWS M f) then sending M s i p f else 0)"
    unfolding recv_def calcRecv_total [OF assms(1)]
    by (intro sum.cong refl) (simp add: sent_eq)
  have "total3 M sent - total3 M recv = delivered M s"
    unfolding tsent trecv delivered_def i_def [symmetric] sum_subtractf [symmetric]
    by (intro sum.cong refl) auto
  moreover have "total3 M (gPortBuffers s2) = total3 M (gPortBuffers s) + total3 M recv - total3 M sent"
    by (simp add: s2_def applySendRecv_total calcSent_frame)
  moreover have "total3 M (gPortBuffers s3) = total3 M (gPortBuffers s2)"
    using reschedule_toggle_total [OF assms(1,2) s3] .
  moreover have "total3 M (gPortBuffers s') =
      total3 M (gPortBuffers s3) + (\<Sum>f<NUM_FLOWS M. amount (FLOWS M f))"
    by (simp add: s' nextPhase_buffers updateValidState_buffers addIngress_total [OF assms(1)])
  ultimately show ?thesis by simp
qed

subsection \<open>Overflow flag\<close>

lemma rescheduleFlow_overflow:
  "rescheduleFlow M ext ph f s = Some s' \<Longrightarrow> gDidOverflow s' = gDidOverflow s"
  by (auto simp: rescheduleFlow_def split: option.splits)

lemma reschedule_overflow:
  assumes "reschedule M ext ph s = Some s'"
  shows "gDidOverflow s' = gDidOverflow s"
  by (rule fold_opt_invariant [where I = "\<lambda>t. gDidOverflow t = gDidOverflow s",
        OF assms [unfolded reschedule_def]])
     (simp_all add: rescheduleFlow_overflow)

lemma reschedule_toggle_overflow:
  assumes "fold_opt (reschedule M ext) phs s = Some s'"
  shows "gDidOverflow s' = gDidOverflow s"
  by (rule fold_opt_invariant [where I = "\<lambda>t. gDidOverflow t = gDidOverflow s", OF assms])
     (simp_all add: reschedule_overflow)

lemma addIngress_fold_overflow:
  "gDidOverflow (fold (addIngressFlow M ext i) fs s) = gDidOverflow s"
  by (induction fs arbitrary: s) (simp_all add: addIngressFlow_def Let_def)

lemma addIngress_overflow: "gDidOverflow (addIngress M ext i s) = gDidOverflow s"
  by (simp add: addIngress_def addIngress_fold_overflow)

lemma updateValidState_from_keeps:
  "gDidOverflow s \<Longrightarrow> gDidOverflow (snd (updateValidState_from M ps s))"
  by (induction ps) simp_all

lemma updateValidState_from_sets:
  "p \<in> set ps \<Longrightarrow> \<not> validPortState M s p \<Longrightarrow> gDidOverflow (snd (updateValidState_from M ps s))"
  by (induction ps) auto

lemma nextPhase_overflow: "gDidOverflow (nextPhase M s) = gDidOverflow s"
  by (simp add: nextPhase_def Let_def)

lemma validPortState_cong:
  "gPortBuffers s = gPortBuffers t \<Longrightarrow> validPortState M s p = validPortState M t p"
  by (simp add: validPortState_def portBuffered_def)

lemma totalPortBuffered_cong:
  "gPortBuffers s = gPortBuffers t \<Longrightarrow> totalPortBuffered M s p = totalPortBuffered M t p"
  by (simp add: totalPortBuffered_def portBuffered_def)

lemma simulatePhase_keeps_overflow:
  assumes "simulatePhase M ext s = Some s'" "gDidOverflow s"
  shows "gDidOverflow s'"
proof -
  define s2 where "s2 = applySendRecv M (fst (calcSent M (gCurrentPhase s) s))
      (calcRecv M ext (gCurrentPhase s) (fst (calcSent M (gCurrentPhase s) s)))
      (snd (calcSent M (gCurrentPhase s) s))"
  from assms(1) obtain s3 where s3: "fold_opt (reschedule M ext) (SCHEDULE_TOGGLE M) s2 = Some s3"
    and s': "s' = nextPhase M (snd (updateValidState M (addIngress M ext (gCurrentPhase s) s3)))"
    by (auto simp: simulatePhase_def Let_def s2_def split: option.splits)
  have "gDidOverflow s2" using assms(2) by (simp add: s2_def applySendRecv_def calcSent_frame)
  then have "gDidOverflow s3" using reschedule_toggle_overflow [OF s3] by simp
  then show ?thesis
    by (simp add: s' nextPhase_overflow updateValidState_def updateValidState_from_keeps
        addIngress_overflow)
qed

lemma simulatePhase_sets_overflow:
  assumes "simulatePhase M ext s = Some s'" "p < NUM_PORTS M"
    "totalPortBuffered M s' p > PORT_CAPACITIES M p"
  shows "gDidOverflow s'"
proof -
  from assms(1) obtain s4 where s': "s' = nextPhase M (snd (updateValidState M s4))"
    by (auto simp: simulatePhase_def Let_def split: option.splits)
  have b: "gPortBuffers s' = gPortBuffers s4"
    by (simp add: s' nextPhase_buffers updateValidState_buffers)
  have "\<not> validPortState M s4 p"
    using assms(3) totalPortBuffered_cong [OF b, of M p]
    by (simp add: validPortState_def totalPortBuffered_def)
  then have "gDidOverflow (snd (updateValidState M s4))"
    unfolding updateValidState_def
    using assms(2) by (intro updateValidState_from_sets [of p]) simp_all
  then show ?thesis by (simp add: s' nextPhase_overflow)
qed

lemma run_keeps_overflow:
  "run M exts s = Some s' \<Longrightarrow> gDidOverflow s \<Longrightarrow> gDidOverflow s'"
proof (induction exts arbitrary: s)
  case Nil
  then show ?case by simp
next
  case (Cons ext exts)
  from Cons.prems(1) obtain t where t: "simulatePhase M ext s = Some t"
    and r: "run M exts t = Some s'"
    by (auto split: option.splits)
  show ?case using Cons.IH [OF r] simulatePhase_keeps_overflow [OF t Cons.prems(2)] by simp
qed

text \<open>
  C9: the overflow flag is monotone within a run. Once \<open>gDidOverflow\<close> holds it holds
  after any number of further steps; and a step that ends with some port \<open>p\<close> holding
  more than its capacity (which is what \<open>updateValidState\<close> observes, the later
  \<open>nextPhase\<close> leaving the buffers alone) ends with the flag set, as does every later
  state of the run.
\<close>

theorem overflow_monotone:
  "(gDidOverflow s \<and> run M exts s = Some s' \<longrightarrow> gDidOverflow s')
   \<and> (simulatePhase M ext s = Some t \<and> p < NUM_PORTS M
        \<and> totalPortBuffered M t p > PORT_CAPACITIES M p \<and> run M exts t = Some s'
        \<longrightarrow> gDidOverflow t \<and> gDidOverflow s')"
  using run_keeps_overflow simulatePhase_sets_overflow by blast

subsection \<open>Binary64 rounding\<close>

lemma pow2_pos: "0 < pow2 e"
  by (simp add: pow2_def)

lemma pow2_powr: "pow2 e = 2 powr (real_of_int e)"
  unfolding pow2_def using powr_int [of "2 :: real" e] by simp

lemma pow2_add: "pow2 (a + b) = pow2 a * pow2 b"
  by (simp add: pow2_powr powr_add)

lemma pow2_mono: "a \<le> b \<Longrightarrow> pow2 a \<le> pow2 b"
  by (simp add: pow2_powr)

lemma pow2_less_iff: "pow2 a < pow2 b \<longleftrightarrow> a < b"
  by (simp add: pow2_powr)

lemma pow2_nat: "pow2 (int n) = 2 ^ n"
  by (simp add: pow2_def)

lemma pow2_neg_nat: "pow2 (- int n) = 1 / 2 ^ n"
  by (cases n) (simp_all add: pow2_def nat_add_distrib)

lemma int_le_pow_real: "(a :: int) \<le> 2 ^ j \<Longrightarrow> real_of_int a \<le> 2 ^ j"
  using of_int_le_iff [of a "2 ^ j", where ?'a = real] by simp

lemma pow_le_int_real: "2 ^ j \<le> (a :: int) \<Longrightarrow> 2 ^ j \<le> real_of_int a"
  using of_int_le_iff [of "2 ^ j" a, where ?'a = real] by simp

lemma expo_bounds:
  assumes "0 < x"
  shows "pow2 (expo x) \<le> x \<and> x < pow2 (expo x + 1)"
proof (cases "1 \<le> x")
  case True
  define n where "n = \<lfloor>x\<rfloor>"
  have n: "0 < n" "real_of_int n \<le> x" "x < real_of_int n + 1"
    using True unfolding n_def by linarith+
  from bitlen_bounds [OF n(1)]
  have lo: "2 ^ nat (bitlen n - 1) \<le> n" and hi: "n < 2 ^ nat (bitlen n)" by simp_all
  have b1: "1 \<le> bitlen n" using n(1) by (simp add: bitlen_alt_def)
  have e: "expo x = bitlen n - 1" using True by (simp add: expo_def n_def)
  have "pow2 (bitlen n - 1) = 2 ^ nat (bitlen n - 1)" using b1 by (simp add: pow2_def)
  also have "\<dots> \<le> real_of_int n" using lo by (rule pow_le_int_real)
  finally have 1: "pow2 (expo x) \<le> x" using n(2) e by simp
  have "n + 1 \<le> 2 ^ nat (bitlen n)" using hi by simp
  then have "real_of_int (n + 1) \<le> 2 ^ nat (bitlen n)" by (rule int_le_pow_real)
  then have "real_of_int n + 1 \<le> 2 ^ nat (bitlen n)" by simp
  moreover have "pow2 (bitlen n) = 2 ^ nat (bitlen n)" using b1 by (simp add: pow2_def)
  ultimately have 2: "x < pow2 (expo x + 1)" using n(3) e by simp
  show ?thesis using 1 2 by simp
next
  case False
  then have x1: "x < 1" by simp
  define y where "y = 1 / x"
  have y1: "1 < y" using assms x1 by (simp add: y_def)
  define m where "m = \<lceil>y\<rceil>"
  have m: "real_of_int m - 1 < y" "y \<le> real_of_int m" unfolding m_def by linarith+
  have m2: "2 \<le> m" using y1 m(2) by linarith
  define k where "k = bitlen (m - 1)"
  have pos: "0 < m - 1" using m2 by simp
  from bitlen_bounds [OF pos]
  have lo: "2 ^ nat (k - 1) \<le> m - 1" and hi: "m - 1 < 2 ^ nat k" by (simp_all add: k_def)
  have k1: "1 \<le> k" using pos by (simp add: k_def bitlen_alt_def)
  have e: "expo x = - k" using False by (simp add: expo_def k_def m_def y_def)
  have "m \<le> 2 ^ nat k" using hi by simp
  then have "real_of_int m \<le> 2 ^ nat k" by (rule int_le_pow_real)
  then have yk: "y \<le> 2 ^ nat k" using m(2) by linarith
  have "2 ^ nat (k - 1) \<le> real_of_int (m - 1)" using lo by (rule pow_le_int_real)
  then have ky: "2 ^ nat (k - 1) < y" using m(1) by simp
  have p1: "pow2 (- k) = 1 / 2 ^ nat k" using k1 by (simp add: pow2_def)
  have p2: "pow2 (- k + 1) = 1 / 2 ^ nat (k - 1)"
  proof (cases "k = 1")
    case True
    then show ?thesis by (simp add: pow2_def)
  next
    case False
    then have "- k + 1 < 0" using k1 by simp
    moreover have "nat (- (- k + 1)) = nat (k - 1)" by simp
    ultimately show ?thesis by (simp add: pow2_def)
  qed
  have xy: "x = 1 / y" using assms by (simp add: y_def)
  have ypos: "0 < y" using y1 by simp
  have "1 / 2 ^ nat k \<le> 1 / y" using yk ypos by (simp add: frac_le)
  then have 1: "pow2 (expo x) \<le> x" using e p1 xy by simp
  have "1 / y < 1 / 2 ^ nat (k - 1)" using ky by (simp add: frac_less2)
  then have 2: "x < pow2 (expo x + 1)" using e p2 xy by simp
  show ?thesis using 1 2 by simp
qed

lemma expo_unique:
  assumes "0 < x" "pow2 e \<le> x" "x < pow2 (e + 1)"
  shows "expo x = e"
proof -
  from expo_bounds [OF assms(1)]
  have a: "pow2 (expo x) \<le> x" and b: "x < pow2 (expo x + 1)" by simp_all
  have "pow2 e < pow2 (expo x + 1)" using assms(2) b by simp
  then have 1: "e < expo x + 1" by (simp only: pow2_less_iff)
  have "pow2 (expo x) < pow2 (e + 1)" using a assms(3) by simp
  then have 2: "expo x < e + 1" by (simp only: pow2_less_iff)
  show ?thesis using 1 2 by simp
qed

lemma round_even_err: "\<bar>real_of_int (round_even y) - y\<bar> \<le> 1 / 2"
proof -
  define f where "f = \<lfloor>y\<rfloor>"
  have f: "real_of_int f \<le> y" "y < real_of_int f + 1" unfolding f_def by linarith+
  consider (lo) "y - real_of_int f < 1 / 2" | (hi) "1 / 2 < y - real_of_int f"
    | (tie) "y - real_of_int f = 1 / 2" by linarith
  then show ?thesis
  proof cases
    case lo
    then have "round_even y = f" by (simp add: round_even_def f_def Let_def)
    then show ?thesis using f lo by simp
  next
    case hi
    then have "round_even y = f + 1" by (simp add: round_even_def f_def Let_def)
    then show ?thesis using f hi by simp
  next
    case tie
    then have "round_even y = f \<or> round_even y = f + 1"
      by (simp add: round_even_def f_def Let_def)
    then show ?thesis using tie by auto
  qed
qed

lemma round_even_of_int: "round_even (real_of_int k) = k"
  by (simp add: round_even_def Let_def)

lemma b64_zero: "b64 0 = 0"
  by (simp add: b64_def)

lemma b64_err:
  assumes "pow2 (- 1022) \<le> \<bar>x\<bar>"
  shows "\<bar>b64 x - x\<bar> \<le> \<bar>x\<bar> / 2 ^ 53"
proof -
  have xpos: "0 < \<bar>x\<bar>" using assms pow2_pos [of "- 1022"] by linarith
  then have x0: "x \<noteq> 0" by simp
  define e where "e = expo \<bar>x\<bar>"
  from expo_bounds [OF xpos] have lo: "pow2 e \<le> \<bar>x\<bar>" and hi: "\<bar>x\<bar> < pow2 (e + 1)"
    by (simp_all add: e_def)
  have "pow2 (- 1022) < pow2 (e + 1)" using assms hi by simp
  then have "- 1022 < e + 1" by (simp only: pow2_less_iff)
  then have me: "max e (- 1022) = e" by simp
  define u where "u = pow2 (e - 52)"
  have upos: "0 < u" by (simp add: u_def pow2_pos)
  have b: "b64 x = real_of_int (round_even (x / u)) * u"
    using x0 by (simp add: b64_def Let_def e_def [symmetric] me u_def)
  have "b64 x - x = (real_of_int (round_even (x / u)) - x / u) * u"
    using upos by (simp add: b algebra_simps)
  then have "\<bar>b64 x - x\<bar> = \<bar>real_of_int (round_even (x / u)) - x / u\<bar> * u"
    using upos by (simp add: abs_mult)
  also have "\<dots> \<le> (1 / 2) * u"
    using round_even_err [of "x / u"] upos by (intro mult_right_mono) simp_all
  finally have 1: "\<bar>b64 x - x\<bar> \<le> u / 2" by simp
  have "pow2 e = pow2 ((e - 52) + 52)" by simp
  also have "\<dots> = u * 2 ^ 52" unfolding pow2_add u_def by (simp add: pow2_def)
  finally have "u = pow2 e / 2 ^ 52" by simp
  then have "u / 2 = pow2 e / 2 ^ 53" by simp
  also have "\<dots> \<le> \<bar>x\<bar> / 2 ^ 53" using lo by (simp add: divide_right_mono)
  finally show ?thesis using 1 by simp
qed

lemma b64_exact:
  assumes x0: "x \<noteq> 0" and e: "- 1022 \<le> expo \<bar>x\<bar>"
    and k: "x / pow2 (expo \<bar>x\<bar> - 52) = real_of_int k"
  shows "b64 x = x"
proof -
  have me: "max (expo \<bar>x\<bar>) (- 1022) = expo \<bar>x\<bar>" using e by simp
  have upos: "0 < pow2 (expo \<bar>x\<bar> - 52)" by (rule pow2_pos)
  have "b64 x = real_of_int (round_even (x / pow2 (expo \<bar>x\<bar> - 52))) * pow2 (expo \<bar>x\<bar> - 52)"
    using x0 by (simp add: b64_def Let_def me)
  also have "\<dots> = real_of_int k * pow2 (expo \<bar>x\<bar> - 52)"
    unfolding k round_even_of_int ..
  also have "\<dots> = x" using k upos by (simp add: field_simps)
  finally show ?thesis .
qed

lemma b64_of_int:
  assumes "\<bar>n\<bar> < 2 ^ 53"
  shows "b64 (real_of_int n) = real_of_int n"
proof (cases "n = 0")
  case True
  then show ?thesis by (simp add: b64_zero)
next
  case False
  define x where "x = real_of_int n"
  have x0: "x \<noteq> 0" using False by (simp add: x_def)
  have ax: "\<bar>x\<bar> = real_of_int \<bar>n\<bar>" by (simp add: x_def)
  have "1 \<le> \<bar>n\<bar>" using False by simp
  then have x1: "1 \<le> \<bar>x\<bar>" unfolding ax by (simp only: of_int_1_le_iff)
  have xpos: "0 < \<bar>x\<bar>" using x1 by simp
  define e where "e = expo \<bar>x\<bar>"
  from expo_bounds [OF xpos] have lo: "pow2 e \<le> \<bar>x\<bar>" and hi: "\<bar>x\<bar> < pow2 (e + 1)"
    by (simp_all add: e_def)
  have "real_of_int \<bar>n\<bar> < real_of_int (2 ^ 53)" using assms by (simp only: of_int_less_iff)
  then have "\<bar>x\<bar> < 2 ^ 53" unfolding ax by simp
  then have "\<bar>x\<bar> < pow2 53" by (simp add: pow2_def)
  then have "pow2 e < pow2 53" using lo by simp
  then have e53: "e < 53" by (simp only: pow2_less_iff)
  have "pow2 0 < pow2 (e + 1)" using x1 hi by (simp add: pow2_def)
  then have "0 < e + 1" by (simp only: pow2_less_iff)
  then have e0: "0 \<le> e" by simp
  define j where "j = nat (52 - e)"
  have j: "e - 52 = - int j" using e53 by (simp add: j_def)
  have "x / pow2 (e - 52) = x * 2 ^ j" unfolding j pow2_neg_nat by simp
  also have "\<dots> = real_of_int (n * 2 ^ j)" by (simp add: x_def)
  finally have k: "x / pow2 (expo \<bar>x\<bar> - 52) = real_of_int (n * 2 ^ j)" by (simp add: e_def)
  have "- 1022 \<le> expo \<bar>x\<bar>" using e0 by (simp add: e_def)
  from b64_exact [OF x0 this k] show ?thesis by (simp add: x_def)
qed

lemma to_double_exact: "\<bar>n\<bar> < 2 ^ 53 \<Longrightarrow> to_double n = real_of_int n"
  unfolding to_double_def by (rule b64_of_int)

subsection \<open>Fair-share rounding, conservation and idempotence\<close>

lemma fint_of_int: "fint (of_int n) = n"
  by (simp add: fint_def)

lemma fint_c_round: "fint (c_round x) = (if x < 0 then - \<lfloor>- x + 1 / 2\<rfloor> else \<lfloor>x + 1 / 2\<rfloor>)"
proof -
  have "c_round x = of_int (if x < 0 then - \<lfloor>- x + 1 / 2\<rfloor> else \<lfloor>x + 1 / 2\<rfloor>)"
    by (simp add: c_round_def)
  then show ?thesis by (simp only: fint_of_int)
qed

lemma fint_c_round_err: "\<bar>real_of_int (fint (c_round x)) - x\<bar> \<le> 1 / 2"
proof (cases "x < 0")
  case True
  define k where "k = \<lfloor>- x + 1 / 2\<rfloor>"
  have k: "real_of_int k \<le> - x + 1 / 2" "- x + 1 / 2 < real_of_int k + 1"
    unfolding k_def by linarith+
  have "fint (c_round x) = - k"
    unfolding fint_c_round k_def using True by (simp only: if_True)
  then show ?thesis using k unfolding of_int_minus by linarith
next
  case False
  define k where "k = \<lfloor>x + 1 / 2\<rfloor>"
  have k: "real_of_int k \<le> x + 1 / 2" "x + 1 / 2 < real_of_int k + 1"
    unfolding k_def by linarith+
  have "fint (c_round x) = k"
    unfolding fint_c_round k_def using False by (simp only: if_False)
  then show ?thesis using k by linarith
qed

lemma packet_range_exact: "packet_range n \<Longrightarrow> to_double n = real_of_int n"
  by (rule to_double_exact) (auto simp: packet_range_def abs_if)

lemma sending_share:
  assumes nz: "portBuffered M s i p \<noteq> 0"
    and r: "packet_range (PORT_BANDWIDTHS M p)" "packet_range (portBuffered M s i p)"
      "packet_range (gPortBuffers s i p f)"
  shows "sending M s i p f =
           fint (c_round (b64 (real_of_int (gPortBuffers s i p f)
             * b64 (real_of_int (min (PORT_BANDWIDTHS M p) (portBuffered M s i p))
                / real_of_int (portBuffered M s i p)))))"
proof -
  have "min (real_of_int (PORT_BANDWIDTHS M p)) (real_of_int (portBuffered M s i p))
          = real_of_int (min (PORT_BANDWIDTHS M p) (portBuffered M s i p))"
    by (simp add: min_def)
  then show ?thesis
    using nz by (simp add: sending_def Let_def packet_range_exact [OF r(1)]
        packet_range_exact [OF r(2)] packet_range_exact [OF r(3)])
qed

lemma pow2_small: "pow2 (- 1022) \<le> 1 / 2000000"
proof -
  have "pow2 (- 1022) \<le> pow2 (- 21)" by (rule pow2_mono) simp
  also have "\<dots> = 1 / 2 ^ 21" by (simp add: pow2_def)
  also have "\<dots> \<le> 1 / 2000000" by simp
  finally show ?thesis .
qed

text \<open>
  The error of the two roundings in \<open>dFlow * (dPacketsToSend / dTotal)\<close>, for a quotient
  that is 0 or of magnitude between one millionth and one million.
\<close>

lemma float_share_err:
  assumes a: "\<bar>a\<bar> \<le> 1000000"
    and q: "q = 0 \<or> (1 / 1000000 \<le> \<bar>q\<bar> \<and> \<bar>q\<bar> \<le> 1000000)"
  shows "\<bar>b64 (real_of_int a * b64 q) - real_of_int a * q\<bar> \<le> 3000000000000 / 2 ^ 53"
proof (cases "q = 0 \<or> a = 0")
  case True
  then show ?thesis by (auto simp: b64_zero)
next
  case False
  then have q0: "1 / 1000000 \<le> \<bar>q\<bar>" and q1: "\<bar>q\<bar> \<le> 1000000" and a0: "a \<noteq> 0"
    using q by auto
  define A where "A = \<bar>real_of_int a\<bar>"
  define Q where "Q = \<bar>q\<bar>"
  have Q: "1 / 1000000 \<le> Q" "Q \<le> 1000000" "0 \<le> Q" using q0 q1 by (simp_all add: Q_def)
  have "1 \<le> \<bar>a\<bar>" using a0 by simp
  then have "real_of_int 1 \<le> real_of_int \<bar>a\<bar>" by (simp only: of_int_le_iff)
  then have A1: "1 \<le> A" by (simp add: A_def)
  have "real_of_int \<bar>a\<bar> \<le> real_of_int 1000000" using a by (simp only: of_int_le_iff)
  then have A2: "A \<le> 1000000" by (simp add: A_def)
  define q' where "q' = b64 q"
  have "pow2 (- 1022) \<le> \<bar>q\<bar>" using pow2_small q0 by simp
  from b64_err [OF this] have e1: "\<bar>q' - q\<bar> \<le> Q / 2 ^ 53" by (simp add: q'_def Q_def)
  have u1: "Q / 2 ^ 53 \<le> Q / 2" using Q(3) by (simp add: divide_left_mono)
  have e1': "\<bar>q' - q\<bar> \<le> Q / 2" using e1 u1 by linarith
  have "\<bar>q'\<bar> \<le> \<bar>q' - q\<bar> + \<bar>q\<bar>" by linarith
  then have hi: "\<bar>q'\<bar> \<le> 2 * Q" using e1' Q(3) unfolding Q_def by linarith
  have "\<bar>q\<bar> \<le> \<bar>q' - q\<bar> + \<bar>q'\<bar>" by linarith
  then have lo: "Q / 2 \<le> \<bar>q'\<bar>" using e1' unfolding Q_def by linarith
  define pr where "pr = real_of_int a * q'"
  have apr: "\<bar>pr\<bar> = A * \<bar>q'\<bar>" by (simp add: pr_def A_def abs_mult)
  have "1 * (Q / 2) \<le> A * \<bar>q'\<bar>" using A1 lo Q(3) by (intro mult_mono) simp_all
  then have "1 / 2000000 \<le> \<bar>pr\<bar>" using Q(1) apr by simp
  then have "pow2 (- 1022) \<le> \<bar>pr\<bar>" using pow2_small by simp
  from b64_err [OF this] have e2: "\<bar>b64 pr - pr\<bar> \<le> A * \<bar>q'\<bar> / 2 ^ 53" by (simp add: apr)
  have "2 * Q \<le> 2 * 1000000" using Q(2) by simp
  with hi have hi': "\<bar>q'\<bar> \<le> 2000000" by simp
  have "A * \<bar>q'\<bar> \<le> 1000000 * 2000000"
    using A2 hi' by (intro mult_mono) simp_all
  then have "A * \<bar>q'\<bar> / 2 ^ 53 \<le> 2000000000000 / 2 ^ 53" by (simp add: divide_right_mono)
  with e2 have e2': "\<bar>b64 pr - pr\<bar> \<le> 2000000000000 / 2 ^ 53" by simp
  have "pr - real_of_int a * q = real_of_int a * (q' - q)" by (simp add: pr_def algebra_simps)
  then have "\<bar>pr - real_of_int a * q\<bar> = A * \<bar>q' - q\<bar>" by (simp add: abs_mult A_def)
  also have "\<dots> \<le> 1000000 * (1000000 / 2 ^ 53)"
  proof (intro mult_mono)
    show "\<bar>q' - q\<bar> \<le> 1000000 / 2 ^ 53"
    proof -
      have "Q / 2 ^ 53 \<le> 1000000 / 2 ^ 53" using Q(2) by (simp add: divide_right_mono)
      with e1 show ?thesis by simp
    qed
  qed (use A2 in simp_all)
  finally have e3: "\<bar>pr - real_of_int a * q\<bar> \<le> 1000000000000 / 2 ^ 53" by simp
  have "\<bar>b64 pr - real_of_int a * q\<bar> \<le> \<bar>b64 pr - pr\<bar> + \<bar>pr - real_of_int a * q\<bar>" by simp
  also have "\<dots> \<le> 2000000000000 / 2 ^ 53 + 1000000000000 / 2 ^ 53"
    using e2' e3 by (rule add_mono)
  also have "\<dots> = 3000000000000 / 2 ^ 53" by simp
  finally show ?thesis by (simp add: pr_def q'_def)
qed

lemma share_quotient:
  fixes bw B :: int
  assumes "B \<noteq> 0" "packet_range B" "packet_range bw"
  shows "real_of_int (min bw B) / real_of_int B = 0
       \<or> (1 / 1000000 \<le> \<bar>real_of_int (min bw B) / real_of_int B\<bar>
          \<and> \<bar>real_of_int (min bw B) / real_of_int B\<bar> \<le> 1000000)"
proof (cases "min bw B = 0")
  case True
  then show ?thesis by simp
next
  case False
  define m where "m = min bw B"
  have m0: "m \<noteq> 0" using False by (simp add: m_def)
  have "\<bar>m\<bar> \<le> 1000000" using assms(2,3) by (auto simp: m_def packet_range_def min_def abs_if)
  then have "real_of_int \<bar>m\<bar> \<le> real_of_int 1000000" by (simp only: of_int_le_iff)
  then have m2: "\<bar>real_of_int m\<bar> \<le> 1000000" by simp
  have "1 \<le> \<bar>m\<bar>" using m0 by simp
  then have "real_of_int 1 \<le> real_of_int \<bar>m\<bar>" by (simp only: of_int_le_iff)
  then have m1: "1 \<le> \<bar>real_of_int m\<bar>" by simp
  have "\<bar>B\<bar> \<le> 1000000" using assms(2) by (auto simp: packet_range_def abs_if)
  then have "real_of_int \<bar>B\<bar> \<le> real_of_int 1000000" by (simp only: of_int_le_iff)
  then have B2: "\<bar>real_of_int B\<bar> \<le> 1000000" by simp
  have "1 \<le> \<bar>B\<bar>" using assms(1) by simp
  then have "real_of_int 1 \<le> real_of_int \<bar>B\<bar>" by (simp only: of_int_le_iff)
  then have B1: "1 \<le> \<bar>real_of_int B\<bar>" by simp
  have Bp: "0 < \<bar>real_of_int B\<bar>" using B1 by simp
  have eq: "\<bar>real_of_int m / real_of_int B\<bar> = \<bar>real_of_int m\<bar> / \<bar>real_of_int B\<bar>" by simp
  have "1 / 1000000 \<le> 1 / \<bar>real_of_int B\<bar>" using B2 Bp by (simp add: frac_le)
  also have "\<dots> \<le> \<bar>real_of_int m\<bar> / \<bar>real_of_int B\<bar>" using m1 Bp by (simp add: divide_right_mono)
  finally have lo: "1 / 1000000 \<le> \<bar>real_of_int m / real_of_int B\<bar>" unfolding eq .
  have "\<bar>real_of_int m\<bar> / \<bar>real_of_int B\<bar> \<le> 1000000 / 1"
    using m2 B1 by (intro frac_le) simp_all
  then have hi: "\<bar>real_of_int m / real_of_int B\<bar> \<le> 1000000" unfolding eq by simp
  show ?thesis using lo hi by (simp add: m_def)
qed

lemma sending_err:
  assumes bw: "packet_range (PORT_BANDWIDTHS M p)"
    and B: "packet_range (portBuffered M s i p)" "portBuffered M s i p \<noteq> 0"
    and f: "packet_range (gPortBuffers s i p f)"
  shows "\<bar>real_of_int (sending M s i p f)
           - real_of_int (gPortBuffers s i p f)
             * (real_of_int (min (PORT_BANDWIDTHS M p) (portBuffered M s i p))
                / real_of_int (portBuffered M s i p))\<bar> \<le> 1 / 2 + 3000000000000 / 2 ^ 53"
proof -
  define q where "q = real_of_int (min (PORT_BANDWIDTHS M p) (portBuffered M s i p))
                / real_of_int (portBuffered M s i p)"
  define a where "a = gPortBuffers s i p f"
  define y where "y = b64 (real_of_int a * b64 q)"
  have snd: "sending M s i p f = fint (c_round y)"
    using sending_share [OF B(2) bw B(1) f] by (simp add: y_def q_def a_def)
  from share_quotient [OF B(2) B(1) bw]
  have q: "q = 0 \<or> (1 / 1000000 \<le> \<bar>q\<bar> \<and> \<bar>q\<bar> \<le> 1000000)" unfolding q_def .
  have "\<bar>a\<bar> \<le> 1000000" using f by (auto simp: a_def packet_range_def abs_if)
  from float_share_err [OF this q]
  have e: "\<bar>y - real_of_int a * q\<bar> \<le> 3000000000000 / 2 ^ 53" by (simp add: y_def)
  have "\<bar>real_of_int (fint (c_round y)) - real_of_int a * q\<bar>
          \<le> \<bar>real_of_int (fint (c_round y)) - y\<bar> + \<bar>y - real_of_int a * q\<bar>" by simp
  also have "\<dots> \<le> 1 / 2 + 3000000000000 / 2 ^ 53"
    using fint_c_round_err [of y] e by (rule add_mono)
  finally show ?thesis by (simp add: snd q_def a_def)
qed

lemma sending_sum_err:
  assumes bw: "packet_range (PORT_BANDWIDTHS M p)"
    and B: "packet_range (portBuffered M s i p)"
    and bufs: "\<forall>g<NUM_FLOWS M. packet_range (gPortBuffers s i p g)"
    and F: "1 \<le> NUM_FLOWS M"
    and nz: "portBuffered M s i p \<noteq> 0 \<or> 0 \<le> PORT_BANDWIDTHS M p"
  shows "\<bar>(\<Sum>f<NUM_FLOWS M. sending M s i p f)
               - min (PORT_BANDWIDTHS M p) (portBuffered M s i p)\<bar> \<le> int (NUM_FLOWS M) - 1"
proof (cases "portBuffered M s i p = 0")
  case True
  then show ?thesis using nz F by (simp add: sending_def)
next
  case False
  define B' where "B' = portBuffered M s i p"
  define m where "m = min (PORT_BANDWIDTHS M p) B'"
  define c where "c = real_of_int m / real_of_int B'"
  define x where "x = (\<lambda>f. real_of_int (gPortBuffers s i p f) * c)"
  define d :: real where "d = 1 / 2 + 3000000000000 / 2 ^ 53"
  have B0: "B' \<noteq> 0" using False by (simp add: B'_def)
  have err: "\<bar>real_of_int (sending M s i p f) - x f\<bar> \<le> d" if "f < NUM_FLOWS M" for f
    using sending_err [OF bw B False, of f] bufs that by (simp add: x_def c_def m_def B'_def d_def)
  have "(\<Sum>f<NUM_FLOWS M. x f) = (\<Sum>f<NUM_FLOWS M. real_of_int (gPortBuffers s i p f)) * c"
    by (simp add: x_def sum_distrib_right)
  also have "(\<Sum>f<NUM_FLOWS M. real_of_int (gPortBuffers s i p f)) = real_of_int B'"
    by (simp add: B'_def portBuffered_def)
  finally have sumx: "(\<Sum>f<NUM_FLOWS M. x f) = real_of_int m" using B0 by (simp add: c_def)
  have "\<bar>real_of_int (\<Sum>f<NUM_FLOWS M. sending M s i p f) - real_of_int m\<bar>
        = \<bar>\<Sum>f<NUM_FLOWS M. (real_of_int (sending M s i p f) - x f)\<bar>"
    by (simp add: sum_subtractf sumx)
  also have "\<dots> \<le> (\<Sum>f<NUM_FLOWS M. \<bar>real_of_int (sending M s i p f) - x f\<bar>)"
    by (rule sum_abs)
  also have "\<dots> \<le> (\<Sum>f<NUM_FLOWS M. d)"
    by (intro sum_mono err) simp
  also have "\<dots> = real (NUM_FLOWS M) * d" by simp
  also have "\<dots> < real (NUM_FLOWS M) * 1"
  proof (rule mult_strict_left_mono)
    show "d < 1" by (simp add: d_def)
    show "0 < real (NUM_FLOWS M)" using F by simp
  qed
  finally have "real_of_int \<bar>(\<Sum>f<NUM_FLOWS M. sending M s i p f) - m\<bar>
                  < real_of_int (int (NUM_FLOWS M))"
    by simp
  then have "\<bar>(\<Sum>f<NUM_FLOWS M. sending M s i p f) - m\<bar> < int (NUM_FLOWS M)"
    by (simp only: of_int_less_iff)
  then show ?thesis by (simp add: m_def B'_def)
qed

lemma rr_port: "portBuffered rrM rrS 0 0 = 2"
  by (simp add: portBuffered_def rrM_def rrS_def lessThan_Suc eval_nat_numeral)

lemma rr_sending: "sending rrM rrS 0 0 0 = 1" "sending rrM rrS 0 0 1 = 1"
  by code_simp+

lemma rr_flows: "{..<NUM_FLOWS rrM} = {0, 1}"
  by (auto simp: rrM_def)

lemma fp_port: "portBuffered fpM fpS 0 0 = 22"
  by (simp add: portBuffered_def fpM_def fpS_def lessThan_Suc eval_nat_numeral)

lemma fp_sending: "sending fpM fpS 0 0 0 = 7" "sending fpM fpS 0 0 1 = 7"
  by code_simp+

lemma fp_flows: "{..<NUM_FLOWS fpM} = {0, 1}"
  by (auto simp: fpM_def)

text \<open>
  C3, as stated, fails: with two flows holding one packet each behind a port of bandwidth 1,
  each flow's share is one half, \<open>round\<close> takes both halves up to 1, and the port sends 2
  packets although \<open>min bandwidth buffered = 1\<close>. The numbers involved (1, 2 and 0.5) are
  binary64 numbers, so no operation rounds.
\<close>

theorem fair_share_sum_exceeds:
  "\<not> ((\<Sum>f<NUM_FLOWS rrM. sending rrM rrS 0 0 f)
         \<le> min (PORT_BANDWIDTHS rrM 0) (portBuffered rrM rrS 0 0))"
proof -
  have "(\<Sum>f<NUM_FLOWS rrM. sending rrM rrS 0 0 f) = 2"
    unfolding rr_flows using rr_sending by simp
  moreover have "min (PORT_BANDWIDTHS rrM 0) (portBuffered rrM rrS 0 0) = 1"
    unfolding rr_port by (simp add: rrM_def)
  ultimately show ?thesis by simp
qed

text \<open>
  C3 (amended): for every phase \<open>i\<close> and port \<open>p\<close>, with the bandwidth, the buffers of the
  flows and their sum \<open>B = portBuffered i p\<close> in the range of \<open>packet_t\<close>: a flow sends 0
  when \<open>B = 0\<close> and otherwise \<open>round\<close> of the binary64 product of its buffer with the
  binary64 quotient \<open>min bandwidth B / B\<close>, which is at most \<open>1/2 + 3 * 10 ^ 12 / 2 ^ 53\<close>
  away from the exact share \<open>buf i p f * min bandwidth B / B\<close>; the total sent by the port
  differs from \<open>min bandwidth B\<close> by at most \<open>F - 1\<close>, in either direction (for \<open>B = 0\<close>,
  where nothing is sent, when the bandwidth is not negative). The total is not bounded
  above by \<open>min bandwidth B\<close>.
\<close>

theorem fair_share_rounding:
  assumes "packet_range (PORT_BANDWIDTHS M p)"
    "packet_range (portBuffered M s i p)"
    "\<forall>g<NUM_FLOWS M. packet_range (gPortBuffers s i p g)"
    "f < NUM_FLOWS M"
  shows "(portBuffered M s i p = 0 \<longrightarrow> sending M s i p f = 0)
       \<and> (portBuffered M s i p \<noteq> 0 \<longrightarrow>
            sending M s i p f =
              fint (c_round (b64 (real_of_int (gPortBuffers s i p f)
                * b64 (real_of_int (min (PORT_BANDWIDTHS M p) (portBuffered M s i p))
                       / real_of_int (portBuffered M s i p)))))
            \<and> \<bar>real_of_int (sending M s i p f)
               - real_of_int (gPortBuffers s i p f)
                 * (real_of_int (min (PORT_BANDWIDTHS M p) (portBuffered M s i p))
                    / real_of_int (portBuffered M s i p))\<bar>
                \<le> 1 / 2 + 3000000000000 / 2 ^ 53)
       \<and> (portBuffered M s i p \<noteq> 0 \<or> 0 \<le> PORT_BANDWIDTHS M p \<longrightarrow>
            \<bar>(\<Sum>f<NUM_FLOWS M. sending M s i p f)
               - min (PORT_BANDWIDTHS M p) (portBuffered M s i p)\<bar> \<le> int (NUM_FLOWS M) - 1)"
proof (intro conjI impI)
  assume "portBuffered M s i p = 0"
  then show "sending M s i p f = 0" by (simp add: sending_def)
next
  have pf: "packet_range (gPortBuffers s i p f)" using assms(3,4) by blast
  assume nz: "portBuffered M s i p \<noteq> 0"
  show "sending M s i p f =
              fint (c_round (b64 (real_of_int (gPortBuffers s i p f)
                * b64 (real_of_int (min (PORT_BANDWIDTHS M p) (portBuffered M s i p))
                       / real_of_int (portBuffered M s i p)))))"
    using nz assms(1,2) pf by (rule sending_share)
  show "\<bar>real_of_int (sending M s i p f)
               - real_of_int (gPortBuffers s i p f)
                 * (real_of_int (min (PORT_BANDWIDTHS M p) (portBuffered M s i p))
                    / real_of_int (portBuffered M s i p))\<bar> \<le> 1 / 2 + 3000000000000 / 2 ^ 53"
    using assms(1,2) nz pf by (rule sending_err)
next
  assume nz: "portBuffered M s i p \<noteq> 0 \<or> 0 \<le> PORT_BANDWIDTHS M p"
  have "1 \<le> NUM_FLOWS M" using assms(4) by simp
  with assms(1-3)
  show "\<bar>(\<Sum>f<NUM_FLOWS M. sending M s i p f)
               - min (PORT_BANDWIDTHS M p) (portBuffered M s i p)\<bar> \<le> int (NUM_FLOWS M) - 1"
    using nz by (rule sending_sum_err)
qed

text \<open>
  The amended bound for the two flows with 11 packets each: both send 7, the port sends 14
  of the 15 packets its bandwidth allows, and the difference 1 is \<open>F - 1\<close>.
\<close>

theorem fair_share_rounding_witness:
  "packet_range (PORT_BANDWIDTHS fpM 0)
   \<and> packet_range (portBuffered fpM fpS 0 0)
   \<and> packet_range (gPortBuffers fpS 0 0 0) \<and> packet_range (gPortBuffers fpS 0 0 1)
   \<and> portBuffered fpM fpS 0 0 = 22
   \<and> sending fpM fpS 0 0 0 = 7 \<and> sending fpM fpS 0 0 1 = 7
   \<and> min (PORT_BANDWIDTHS fpM 0) (portBuffered fpM fpS 0 0) = 15
   \<and> \<bar>real_of_int (sending fpM fpS 0 0 0)
        - real_of_int (gPortBuffers fpS 0 0 0)
          * (real_of_int (min (PORT_BANDWIDTHS fpM 0) (portBuffered fpM fpS 0 0))
             / real_of_int (portBuffered fpM fpS 0 0))\<bar> \<le> 1 / 2 + 3000000000000 / 2 ^ 53
   \<and> \<bar>(\<Sum>f<NUM_FLOWS fpM. sending fpM fpS 0 0 f)
        - min (PORT_BANDWIDTHS fpM 0) (portBuffered fpM fpS 0 0)\<bar> \<le> int (NUM_FLOWS fpM) - 1"
proof -
  have h: "packet_range (PORT_BANDWIDTHS fpM 0)"
    by (simp add: fpM_def packet_range_def)
  have b: "packet_range (portBuffered fpM fpS 0 0)"
    by (simp add: fp_port packet_range_def)
  have g: "\<forall>g<NUM_FLOWS fpM. packet_range (gPortBuffers fpS 0 0 g)"
    by (simp add: fpS_def packet_range_def)
  have f: "0 < NUM_FLOWS fpM" by (simp add: fpM_def)
  have m: "min (PORT_BANDWIDTHS fpM 0) (portBuffered fpM fpS 0 0) = 15"
    by (simp add: fp_port) (simp add: fpM_def)
  have r: "packet_range (gPortBuffers fpS 0 0 0)" "packet_range (gPortBuffers fpS 0 0 1)"
    by (simp_all add: fpS_def packet_range_def)
  have nz: "portBuffered fpM fpS 0 0 \<noteq> 0" by (simp add: fp_port)
  from fair_share_rounding [OF h b g f] nz h b r m fp_sending fp_port show ?thesis
    by blast
qed

lemma ex_in_range: "ext_in_range exM exExt"
  by (simp add: ext_in_range_def exM_def exExt_def)

lemma ex_step_some: "simulatePhase exM exExt exS \<noteq> None"
  by (simp add: simulatePhase_def Let_def exM_def)

text \<open>
  C2: one execution of \<open>simulatePhase\<close> in phase \<open>i\<close> changes the sum of all buffers by
  the ingress injected (the sum of the flows' amounts) minus the packets delivered at
  egress (what was sent in phase \<open>i\<close> through a port whose target is the flow's egress
  node): those packets are not buffered again. The scheduler's answers are phases and
  ports of the model, the rescheduled phases are phases of the model, and the current
  phase is in range, as the model's bounded types \<open>phase_t\<close> and \<open>port_t\<close> require.
\<close>

theorem simulatePhase_conserves:
  assumes "ext_in_range M ext" "\<forall>ph\<in>set (SCHEDULE_TOGGLE M). ph < NUM_PHASES M"
    "gCurrentPhase s < NUM_PHASES M"
    "simulatePhase M ext s = Some s'"
  shows "(\<Sum>j<NUM_PHASES M. \<Sum>p<NUM_PORTS M. \<Sum>f<NUM_FLOWS M. gPortBuffers s' j p f) =
           (\<Sum>j<NUM_PHASES M. \<Sum>p<NUM_PORTS M. \<Sum>f<NUM_FLOWS M. gPortBuffers s j p f)
           + (\<Sum>f<NUM_FLOWS M. amount (FLOWS M f))
           - (\<Sum>f<NUM_FLOWS M. \<Sum>p<NUM_PORTS M.
                if TOPOLOGY M (gCurrentPhase s) p = egress (FLOWS M f)
                then sending M s (gCurrentPhase s) p f else 0)"
  using simulatePhase_conservation [OF assms]
  by (simp only: total3_def delivered_def)

text \<open>One step of the two-node example: 24 packets before, 3 injected, 1 delivered, 26 after.\<close>

theorem simulatePhase_conserves_witness:
  "ext_in_range exM exExt \<and> gCurrentPhase exS < NUM_PHASES exM
   \<and> (\<exists>s'. simulatePhase exM exExt exS = Some s'
        \<and> (\<Sum>j<NUM_PHASES exM. \<Sum>p<NUM_PORTS exM. \<Sum>f<NUM_FLOWS exM. gPortBuffers s' j p f) = 26)
   \<and> (\<Sum>j<NUM_PHASES exM. \<Sum>p<NUM_PORTS exM. \<Sum>f<NUM_FLOWS exM. gPortBuffers exS j p f) = 24
   \<and> (\<Sum>f<NUM_FLOWS exM. amount (FLOWS exM f)) = 3
   \<and> (\<Sum>f<NUM_FLOWS exM. \<Sum>p<NUM_PORTS exM.
         if TOPOLOGY exM (gCurrentPhase exS) p = egress (FLOWS exM f)
         then sending exM exS (gCurrentPhase exS) p f else 0) = 1"
proof -
  obtain s' where s': "simulatePhase exM exExt exS = Some s'"
    using ex_step_some by blast
  have tog: "\<forall>ph\<in>set (SCHEDULE_TOGGLE exM). ph < NUM_PHASES exM" by (simp add: exM_def)
  have ph: "gCurrentPhase exS < NUM_PHASES exM" by (simp add: exM_def exS_def)
  have before: "(\<Sum>j<NUM_PHASES exM. \<Sum>p<NUM_PORTS exM. \<Sum>f<NUM_FLOWS exM.
                   gPortBuffers exS j p f) = 24"
    by code_simp
  have amt: "(\<Sum>f<NUM_FLOWS exM. amount (FLOWS exM f)) = 3"
    by code_simp
  have del: "(\<Sum>f<NUM_FLOWS exM. \<Sum>p<NUM_PORTS exM.
         if TOPOLOGY exM (gCurrentPhase exS) p = egress (FLOWS exM f)
         then sending exM exS (gCurrentPhase exS) p f else 0) = 1"
    by code_simp
  from simulatePhase_conserves [OF ex_in_range tog ph s']
  have "(\<Sum>j<NUM_PHASES exM. \<Sum>p<NUM_PORTS exM. \<Sum>f<NUM_FLOWS exM. gPortBuffers s' j p f) = 26"
    unfolding before amt del by simp
  with s' ex_in_range ph before amt del show ?thesis by blast
qed

text \<open>
  C8: for every buffer state and every phase of the model, \<open>reschedule\<close> run twice in
  succession under the same scheduler answers leaves the state that one run leaves
  (and fails on its assertion exactly when one run does).
\<close>

theorem reschedule_idempotent:
  assumes "ph < NUM_PHASES M"
  shows "(case reschedule M ext ph s of None \<Rightarrow> None | Some s' \<Rightarrow> reschedule M ext ph s')
           = reschedule M ext ph s"
proof (cases "reschedule M ext ph s")
  case None
  then show ?thesis by simp
next
  case (Some s')
  then show ?thesis using reschedule_idem [OF assms Some] by simp
qed

lemma ex_reschedule_some: "reschedule exM exExt 0 exS \<noteq> None"
  by (simp add: reschedule_def rescheduleFlow_eq asserts_ok_def exM_def exExt_def)

text \<open>
  Rescheduling phase 0 of the example moves the 6 packets of port 0 from phase 0 to
  phase 1; a second run changes nothing.
\<close>

theorem reschedule_idempotent_witness:
  "0 < NUM_PHASES exM
   \<and> reschedule exM exExt 0 exS \<noteq> None
   \<and> gPortBuffers (the (reschedule exM exExt 0 exS)) 0 0 0 = 0
   \<and> gPortBuffers (the (reschedule exM exExt 0 exS)) 1 0 0 = 12
   \<and> (case reschedule exM exExt 0 exS of None \<Rightarrow> None
       | Some s' \<Rightarrow> reschedule exM exExt 0 s') = reschedule exM exExt 0 exS"
proof -
  have h: "0 < NUM_PHASES exM" by (simp add: exM_def)
  have a: "gPortBuffers (the (reschedule exM exExt 0 exS)) 0 0 0 = 0" by code_simp
  have b: "gPortBuffers (the (reschedule exM exExt 0 exS)) 1 0 0 = 12" by code_simp
  from reschedule_idempotent [OF h, of exExt exS] h a b ex_reschedule_some
  show ?thesis by blast
qed

text \<open>
  A step of the example that overflows port 0 (15 packets against a capacity of 10) sets
  the flag, and two further steps keep it.
\<close>

theorem overflow_monotone_witness:
  "\<not> gDidOverflow exS
   \<and> (\<exists>t s'. simulatePhase exM exExt exS = Some t
        \<and> 0 < NUM_PORTS exM
        \<and> totalPortBuffered exM t 0 = 15 \<and> PORT_CAPACITIES exM 0 = 10
        \<and> run exM [exExt, exExt] t = Some s'
        \<and> gDidOverflow t \<and> gDidOverflow s')"
proof -
  obtain t where t: "simulatePhase exM exExt exS = Some t"
    using ex_step_some by blast
  have tog: "SCHEDULE_TOGGLE exM = []" by (simp add: exM_def)
  have some: "simulatePhase exM exExt u \<noteq> None" for u
    by (simp add: simulatePhase_def Let_def tog)
  obtain u where u: "simulatePhase exM exExt t = Some u" using some [of t] by blast
  obtain s' where s': "simulatePhase exM exExt u = Some s'" using some [of u] by blast
  have r: "run exM [exExt, exExt] t = Some s'" by (simp add: u s')
  have "totalPortBuffered exM (the (simulatePhase exM exExt exS)) 0 = 15" by code_simp
  then have tot: "totalPortBuffered exM t 0 = 15" by (simp add: t)
  have cap: "PORT_CAPACITIES exM 0 = 10" by (simp add: exM_def)
  have q: "0 < NUM_PORTS exM" by (simp add: exM_def)
  have gt: "PORT_CAPACITIES exM 0 < totalPortBuffered exM t 0" by (simp add: tot cap)
  have no: "\<not> gDidOverflow exS" by (simp add: exS_def)
  from overflow_monotone [of exS exM "[exExt, exExt]" s' exExt t 0] t q gt r
  have "gDidOverflow t \<and> gDidOverflow s'" by blast
  with no t q tot cap r show ?thesis by blast
qed

subsection \<open>Construction of the temporal graph\<close>

lemma pushNode_simps:
  "vertices (graph (pushNode n tg)) = vertices (graph tg) @ [VNode \<lparr>tnode_node = n\<rparr>]"
  "edges (graph (pushNode n tg)) = edges (graph tg)"
  "vNodes (pushNode n tg) = vNodes tg @ [length (vertices (graph tg))]"
  "vPN (pushNode n tg) = vPN tg"
  "vPP (pushNode n tg) = vPP tg"
  "tg_topology (pushNode n tg) = tg_topology tg"
  by (simp_all add: pushNode_def add_vertex_def Let_def)

lemma pushPhaseNode_simps:
  "vertices (graph (pushPhaseNode ph n tg))
     = vertices (graph tg) @ [VPhaseNode \<lparr>tpn_phase = ph, tpn_node = n\<rparr>]"
  "edges (graph (pushPhaseNode ph n tg)) = edges (graph tg)"
  "vNodes (pushPhaseNode ph n tg) = vNodes tg"
  "vPN (pushPhaseNode ph n tg) = vPN tg @ [length (vertices (graph tg))]"
  "vPP (pushPhaseNode ph n tg) = vPP tg"
  "tg_topology (pushPhaseNode ph n tg) = tg_topology tg"
  by (simp_all add: pushPhaseNode_def add_vertex_def Let_def)

lemma pushPhasePort_simps:
  "vertices (graph (pushPhasePort ph po tg))
     = vertices (graph tg) @ [VPort \<lparr>tport_phase = ph, tport_port = po\<rparr>]"
  "edges (graph (pushPhasePort ph po tg)) = edges (graph tg)"
  "vNodes (pushPhasePort ph po tg) = vNodes tg"
  "vPN (pushPhasePort ph po tg) = vPN tg"
  "vPP (pushPhasePort ph po tg) = vPP tg @ [length (vertices (graph tg))]"
  "tg_topology (pushPhasePort ph po tg) = tg_topology tg"
  by (simp_all add: pushPhasePort_def add_vertex_def Let_def)

lemma upt_add_Suc: "n # [Suc n..<Suc (n + k)] = [n..<Suc (n + k)]"
  by (simp add: upt_conv_Cons del: upt_Suc)

lemma fold_pushNode:
  "vertices (graph (fold pushNode xs tg))
     = vertices (graph tg) @ map (\<lambda>n. VNode \<lparr>tnode_node = n\<rparr>) xs
   \<and> edges (graph (fold pushNode xs tg)) = edges (graph tg)
   \<and> vNodes (fold pushNode xs tg)
       = vNodes tg @ [length (vertices (graph tg))..<length (vertices (graph tg)) + length xs]
   \<and> vPN (fold pushNode xs tg) = vPN tg
   \<and> vPP (fold pushNode xs tg) = vPP tg
   \<and> tg_topology (fold pushNode xs tg) = tg_topology tg"
proof (induction xs arbitrary: tg)
  case Nil
  show ?case by simp
next
  case (Cons x xs)
  show ?case
    by (simp add: Cons.IH pushNode_simps upt_add_Suc del: upt_Suc)
qed

lemma fold_pushPhaseNode:
  "vertices (graph (fold (pushPhaseNode ph) xs tg))
     = vertices (graph tg) @ map (\<lambda>n. VPhaseNode \<lparr>tpn_phase = ph, tpn_node = n\<rparr>) xs
   \<and> edges (graph (fold (pushPhaseNode ph) xs tg)) = edges (graph tg)
   \<and> vNodes (fold (pushPhaseNode ph) xs tg) = vNodes tg
   \<and> vPN (fold (pushPhaseNode ph) xs tg)
       = vPN tg @ [length (vertices (graph tg))..<length (vertices (graph tg)) + length xs]
   \<and> vPP (fold (pushPhaseNode ph) xs tg) = vPP tg
   \<and> tg_topology (fold (pushPhaseNode ph) xs tg) = tg_topology tg"
proof (induction xs arbitrary: tg)
  case Nil
  show ?case by simp
next
  case (Cons x xs)
  show ?case
    by (simp add: Cons.IH pushPhaseNode_simps upt_add_Suc del: upt_Suc)
qed

lemma fold_pushPhasePort:
  "vertices (graph (fold (pushPhasePort ph) xs tg))
     = vertices (graph tg) @ map (\<lambda>po. VPort \<lparr>tport_phase = ph, tport_port = po\<rparr>) xs
   \<and> edges (graph (fold (pushPhasePort ph) xs tg)) = edges (graph tg)
   \<and> vNodes (fold (pushPhasePort ph) xs tg) = vNodes tg
   \<and> vPN (fold (pushPhasePort ph) xs tg) = vPN tg
   \<and> vPP (fold (pushPhasePort ph) xs tg)
       = vPP tg @ [length (vertices (graph tg))..<length (vertices (graph tg)) + length xs]
   \<and> tg_topology (fold (pushPhasePort ph) xs tg) = tg_topology tg"
proof (induction xs arbitrary: tg)
  case Nil
  show ?case by simp
next
  case (Cons x xs)
  show ?case
    by (simp add: Cons.IH pushPhasePort_simps upt_add_Suc del: upt_Suc)
qed

lemma upt_append_add: "[a..<a + m] @ [a + m..<a + m + k] = [a..<a + m + k]"
  by (metis le_add1 upt_add_eq_append)

lemma fold_fold_pushPhaseNode:
  "vertices (graph (fold (\<lambda>ph. fold (pushPhaseNode ph) ns) phs tg))
     = vertices (graph tg)
       @ concat (map (\<lambda>ph. map (\<lambda>n. VPhaseNode \<lparr>tpn_phase = ph, tpn_node = n\<rparr>) ns) phs)
   \<and> edges (graph (fold (\<lambda>ph. fold (pushPhaseNode ph) ns) phs tg)) = edges (graph tg)
   \<and> vNodes (fold (\<lambda>ph. fold (pushPhaseNode ph) ns) phs tg) = vNodes tg
   \<and> vPN (fold (\<lambda>ph. fold (pushPhaseNode ph) ns) phs tg)
       = vPN tg @ [length (vertices (graph tg))..<
                   length (vertices (graph tg)) + length phs * length ns]
   \<and> vPP (fold (\<lambda>ph. fold (pushPhaseNode ph) ns) phs tg) = vPP tg
   \<and> tg_topology (fold (\<lambda>ph. fold (pushPhaseNode ph) ns) phs tg) = tg_topology tg"
proof (induction phs arbitrary: tg)
  case Nil
  show ?case by simp
next
  case (Cons ph phs)
  show ?case
    by (simp add: Cons.IH fold_pushPhaseNode upt_append_add add.assoc [symmetric] del: upt_Suc)
qed

lemma fold_fold_pushPhasePort:
  "vertices (graph (fold (\<lambda>ph. fold (pushPhasePort ph) ns) phs tg))
     = vertices (graph tg)
       @ concat (map (\<lambda>ph. map (\<lambda>po. VPort \<lparr>tport_phase = ph, tport_port = po\<rparr>) ns) phs)
   \<and> edges (graph (fold (\<lambda>ph. fold (pushPhasePort ph) ns) phs tg)) = edges (graph tg)
   \<and> vNodes (fold (\<lambda>ph. fold (pushPhasePort ph) ns) phs tg) = vNodes tg
   \<and> vPN (fold (\<lambda>ph. fold (pushPhasePort ph) ns) phs tg) = vPN tg
   \<and> vPP (fold (\<lambda>ph. fold (pushPhasePort ph) ns) phs tg)
       = vPP tg @ [length (vertices (graph tg))..<
                   length (vertices (graph tg)) + length phs * length ns]
   \<and> tg_topology (fold (\<lambda>ph. fold (pushPhasePort ph) ns) phs tg) = tg_topology tg"
proof (induction phs arbitrary: tg)
  case Nil
  show ?case by simp
next
  case (Cons ph phs)
  show ?case
    by (simp add: Cons.IH fold_pushPhasePort upt_append_add add.assoc [symmetric] del: upt_Suc)
qed

lemma length_concat_map_const:
  "length (concat (map (\<lambda>x. map (f x) ns) xs)) = length xs * length ns"
  by (induction xs) simp_all

lemma createVertices_tg0:
  "vertices (graph (createVertices (tg0 tp)))
     = map (\<lambda>n. VNode \<lparr>tnode_node = n\<rparr>) [0..<num_nodes tp]
       @ concat (map (\<lambda>ph. map (\<lambda>n. VPhaseNode \<lparr>tpn_phase = ph, tpn_node = n\<rparr>)
                               [0..<num_nodes tp]) [0..<num_phases tp])
       @ concat (map (\<lambda>ph. map (\<lambda>po. VPort \<lparr>tport_phase = ph, tport_port = po\<rparr>)
                               [0..<num_ports tp]) [0..<num_phases tp])"
  "edges (graph (createVertices (tg0 tp))) = []"
  "vNodes (createVertices (tg0 tp)) = [0..<num_nodes tp]"
  "vPN (createVertices (tg0 tp))
     = [num_nodes tp..<num_nodes tp + num_phases tp * num_nodes tp]"
  "vPP (createVertices (tg0 tp))
     = [num_nodes tp + num_phases tp * num_nodes tp..<
        num_nodes tp + num_phases tp * num_nodes tp + num_phases tp * num_ports tp]"
  "tg_topology (createVertices (tg0 tp)) = tp"
  by (simp_all add: createVertices_def Let_def fold_fold_pushPhasePort fold_fold_pushPhaseNode
      fold_pushNode length_concat_map_const tg0_def)

lemma with_edges_simps:
  "vertices (graph (with_edges tg es)) = vertices (graph tg)"
  "edges (graph (with_edges tg es)) = es"
  "vNodes (with_edges tg es) = vNodes tg"
  "vPN (with_edges tg es) = vPN tg"
  "vPP (with_edges tg es) = vPP tg"
  "tg_topology (with_edges tg es) = tg_topology tg"
  "with_edges (with_edges tg es) es' = with_edges tg es'"
  "with_edges tg (edges (graph tg)) = tg"
  by (simp_all add: with_edges_def)

lemma fold_with_edges:
  assumes step: "\<And>x tg. step x tg = with_edges tg (edges (graph tg) @ mk tg x)"
    and frame: "\<And>tg es. mk (with_edges tg es) = mk tg"
  shows "fold step xs tg = with_edges tg (edges (graph tg) @ concat (map (mk tg) xs))"
proof (induction xs arbitrary: tg)
  case Nil
  show ?case by (simp add: with_edges_simps)
next
  case (Cons x xs)
  have "fold step (x # xs) tg = fold step xs (step x tg)" by simp
  also have "\<dots> = with_edges (step x tg)
                      (edges (graph (step x tg)) @ concat (map (mk (step x tg)) xs))"
    by (rule Cons.IH)
  also have "\<dots> = with_edges tg (edges (graph tg) @ concat (map (mk tg) (x # xs)))"
    by (simp add: step frame with_edges_simps)
  finally show ?case .
qed

lemma edge_of_frame:
  "collector_of (with_edges tg es) = collector_of tg"
  "transfer_of (with_edges tg es) = transfer_of tg"
  "enqueue_of (with_edges tg es) = enqueue_of tg"
  by (simp_all add: fun_eq_iff collector_of_def transfer_of_def enqueue_of_def with_edges_simps
      pnIndex_def ppIndex_def nIndex_def phaseAdd_def)

lemma edge_of_frame':
  "(\<lambda>tg n. [collector_of tg ph n]) (with_edges tg es) = (\<lambda>n. [collector_of tg ph n])"
  "(\<lambda>tg n. [transfer_of tg ph n]) (with_edges tg es) = (\<lambda>n. [transfer_of tg ph n])"
  "(\<lambda>tg w. [enqueue_of tg ph po w]) (with_edges tg es) = (\<lambda>w. [enqueue_of tg ph po w])"
  by (simp_all add: edge_of_frame)

lemma edge_steps:
  "collectorEdge ph node tg = with_edges tg (edges (graph tg) @ [collector_of tg ph node])"
  "transferEdge ph po tg = with_edges tg (edges (graph tg) @ [transfer_of tg ph po])"
  "enqueueEdge ph po w tg = with_edges tg (edges (graph tg) @ [enqueue_of tg ph po w])"
  by (simp_all add: collectorEdge_def transferEdge_def enqueueEdge_def Let_def add_edge_def
      with_edges_def collector_of_def transfer_of_def enqueue_of_def)

lemma concat_map_single: "concat (map (\<lambda>x. [f x]) xs) = map f xs"
  by (induction xs) simp_all

lemma fold_collectorEdge:
  "fold (\<lambda>ph. fold (collectorEdge ph) ns) phs tg
     = with_edges tg (edges (graph tg)
         @ concat (map (\<lambda>ph. map (collector_of tg ph) ns) phs))"
proof -
  have inner: "fold (collectorEdge ph) ns tg
                 = with_edges tg (edges (graph tg) @ map (collector_of tg ph) ns)" for ph tg
    using fold_with_edges [where step = "collectorEdge ph" and mk = "\<lambda>tg n. [collector_of tg ph n]"
        and xs = ns and tg = tg]
    by (simp add: edge_steps edge_of_frame concat_map_single)
  show ?thesis
    using fold_with_edges [where step = "\<lambda>ph. fold (collectorEdge ph) ns"
        and mk = "\<lambda>tg ph. map (collector_of tg ph) ns" and xs = phs and tg = tg]
    by (simp add: inner edge_of_frame)
qed

lemma fold_transferEdge:
  "fold (\<lambda>ph. fold (transferEdge ph) ps) phs tg
     = with_edges tg (edges (graph tg)
         @ concat (map (\<lambda>ph. map (transfer_of tg ph) ps) phs))"
proof -
  have inner: "fold (transferEdge ph) ps tg
                 = with_edges tg (edges (graph tg) @ map (transfer_of tg ph) ps)" for ph tg
    using fold_with_edges [where step = "transferEdge ph" and mk = "\<lambda>tg n. [transfer_of tg ph n]"
        and xs = ps and tg = tg]
    by (simp add: edge_steps edge_of_frame concat_map_single)
  show ?thesis
    using fold_with_edges [where step = "\<lambda>ph. fold (transferEdge ph) ps"
        and mk = "\<lambda>tg ph. map (transfer_of tg ph) ps" and xs = phs and tg = tg]
    by (simp add: inner edge_of_frame)
qed

lemma fold_enqueueEdge:
  "fold (\<lambda>ph. fold (\<lambda>po. fold (enqueueEdge ph po) ws) ps) phs tg
     = with_edges tg (edges (graph tg)
         @ concat (map (\<lambda>ph. concat (map (\<lambda>po. map (enqueue_of tg ph po) ws) ps)) phs))"
proof -
  have inner: "fold (enqueueEdge ph po) ws tg
                 = with_edges tg (edges (graph tg) @ map (enqueue_of tg ph po) ws)" for ph po tg
    using fold_with_edges [where step = "enqueueEdge ph po"
        and mk = "\<lambda>tg w. [enqueue_of tg ph po w]" and xs = ws and tg = tg]
    by (simp add: edge_steps edge_of_frame concat_map_single)
  have mid: "fold (\<lambda>po. fold (enqueueEdge ph po) ws) ps tg
                 = with_edges tg (edges (graph tg)
                     @ concat (map (\<lambda>po. map (enqueue_of tg ph po) ws) ps))" for ph tg
    using fold_with_edges [where step = "\<lambda>po. fold (enqueueEdge ph po) ws"
        and mk = "\<lambda>tg po. map (enqueue_of tg ph po) ws" and xs = ps and tg = tg]
    by (simp add: inner edge_of_frame)
  show ?thesis
    using fold_with_edges [where step = "\<lambda>ph. fold (\<lambda>po. fold (enqueueEdge ph po) ws) ps"
        and mk = "\<lambda>tg ph. concat (map (\<lambda>po. map (enqueue_of tg ph po) ws) ps)"
        and xs = phs and tg = tg]
    by (simp add: mid edge_of_frame)
qed

subsection \<open>Vertex descriptors\<close>

lemma index_bound:
  fixes i j m n :: nat
  assumes "i < m" "j < n"
  shows "i * n + j < m * n"
proof -
  have "i * n + j < i * n + n" using assms(2) by simp
  also have "\<dots> = Suc i * n" by simp
  also have "\<dots> \<le> m * n" using assms(1) by (intro mult_le_mono1) simp
  finally show ?thesis .
qed

lemma index_inj:
  fixes i j i' j' n :: nat
  assumes "i * n + j = i' * n + j'" "j < n" "j' < n"
  shows "i = i' \<and> j = j'"
proof -
  have "(i * n + j) div n = i" "(i' * n + j') div n = i'"
    using assms(2,3) by simp_all
  then have "i = i'" using assms(1) by simp
  then show ?thesis using assms(1) by simp
qed

lemma nth_concat_map_upt:
  assumes "i < m" "j < n"
  shows "concat (map (\<lambda>i. map (f i) [0..<n]) [0..<m]) ! (i * n + j) = f i j"
  using assms(1)
proof (induction m)
  case 0
  then show ?case by simp
next
  case (Suc m)
  have len: "length (concat (map (\<lambda>i. map (f i) [0..<n]) [0..<m])) = m * n"
    by (simp add: length_concat_map_const)
  show ?case
  proof (cases "i < m")
    case True
    then have "i * n + j < m * n" using assms(2) by (rule index_bound)
    then show ?thesis using Suc.IH [OF True] by (simp add: nth_append len)
  next
    case False
    then have "i = m" using Suc.prems by simp
    then show ?thesis using assms(2) by (simp add: nth_append len)
  qed
qed

lemma TemporalGraph_new_eq:
  "TemporalGraph_new tp =
     with_edges (createVertices (tg0 tp))
       (concat (map (\<lambda>ph. map (transfer_of (createVertices (tg0 tp)) ph) [0..<num_ports tp])
                  [0..<num_phases tp])
        @ concat (map (\<lambda>ph. concat (map (\<lambda>po. map (enqueue_of (createVertices (tg0 tp)) ph po)
                                                 [1..<num_phases tp + 1])
                                     [0..<num_ports tp]))
                  [0..<num_phases tp])
        @ concat (map (\<lambda>ph. map (collector_of (createVertices (tg0 tp)) ph) [0..<num_nodes tp])
                  [0..<num_phases tp]))"
  unfolding TemporalGraph_new_def createWaits_def createCollectorNodeEdges_def
    createTransfers_def Let_def tg0_def [symmetric]
  by (simp add: fold_collectorEdge fold_transferEdge fold_enqueueEdge with_edges_simps
      edge_of_frame createVertices_tg0)

lemma TemporalGraph_new_fields:
  "vertices (graph (TemporalGraph_new tp))
     = map (\<lambda>n. VNode \<lparr>tnode_node = n\<rparr>) [0..<num_nodes tp]
       @ concat (map (\<lambda>ph. map (\<lambda>n. VPhaseNode \<lparr>tpn_phase = ph, tpn_node = n\<rparr>)
                               [0..<num_nodes tp]) [0..<num_phases tp])
       @ concat (map (\<lambda>ph. map (\<lambda>po. VPort \<lparr>tport_phase = ph, tport_port = po\<rparr>)
                               [0..<num_ports tp]) [0..<num_phases tp])"
  "vNodes (TemporalGraph_new tp) = [0..<num_nodes tp]"
  "vPN (TemporalGraph_new tp)
     = [num_nodes tp..<num_nodes tp + num_phases tp * num_nodes tp]"
  "vPP (TemporalGraph_new tp)
     = [num_nodes tp + num_phases tp * num_nodes tp..<
        num_nodes tp + num_phases tp * num_nodes tp + num_phases tp * num_ports tp]"
  "tg_topology (TemporalGraph_new tp) = tp"
  by (simp_all add: TemporalGraph_new_eq with_edges_simps createVertices_tg0)

lemma vPN_nth:
  assumes "ph < num_phases tp" "n < num_nodes tp"
  shows "vPN (TemporalGraph_new tp) ! pnIndex (TemporalGraph_new tp) ph n = pn_desc tp ph n"
  using index_bound [OF assms]
  by (simp add: TemporalGraph_new_fields pnIndex_def pn_desc_def)

lemma vPP_nth:
  assumes "ph < num_phases tp" "po < num_ports tp"
  shows "vPP (TemporalGraph_new tp) ! ppIndex (TemporalGraph_new tp) ph po = pp_desc tp ph po"
  using index_bound [OF assms]
  by (simp add: TemporalGraph_new_fields ppIndex_def pp_desc_def)

lemma vNodes_nth:
  assumes "n < num_nodes tp"
  shows "vNodes (TemporalGraph_new tp) ! nIndex (TemporalGraph_new tp) n = n"
  using assms by (simp add: TemporalGraph_new_fields nIndex_def)

lemma vertex_node:
  assumes "n < num_nodes tp"
  shows "vertices (graph (TemporalGraph_new tp)) ! n = VNode \<lparr>tnode_node = n\<rparr>"
  using assms by (simp add: TemporalGraph_new_fields nth_append)

lemma vertex_pn:
  assumes "ph < num_phases tp" "n < num_nodes tp"
  shows "vertices (graph (TemporalGraph_new tp)) ! pn_desc tp ph n
           = VPhaseNode \<lparr>tpn_phase = ph, tpn_node = n\<rparr>"
  using index_bound [OF assms] nth_concat_map_upt [OF assms]
  by (simp add: TemporalGraph_new_fields nth_append pn_desc_def length_concat_map_const)

lemma vertex_pp:
  assumes "ph < num_phases tp" "po < num_ports tp"
  shows "vertices (graph (TemporalGraph_new tp)) ! pp_desc tp ph po
           = VPort \<lparr>tport_phase = ph, tport_port = po\<rparr>"
  using index_bound [OF assms] nth_concat_map_upt [OF assms]
  by (simp add: TemporalGraph_new_fields nth_append pp_desc_def length_concat_map_const)

subsection \<open>Greedy selection\<close>

lemma takeBest_subseq:
  "\<exists>sel. subseq sel ns \<and> takeBest K ns opts seen = opts @ map pip_of sel"
proof (induction ns arbitrary: opts seen)
  case Nil
  show ?case by simp
next
  case (Cons n ns)
  show ?case
  proof (cases "tport_port (fst n) \<in> set seen")
    case True
    from Cons.IH [of opts seen] obtain sel where
      "subseq sel ns" "takeBest K ns opts seen = opts @ map pip_of sel" by blast
    then show ?thesis using True by (auto intro!: exI [of _ sel])
  next
    case False
    show ?thesis
    proof (cases "length (opts @ [pip_of n]) \<ge> K")
      case True
      have "subseq [n] (n # ns)" by simp
      moreover have "takeBest K (n # ns) opts seen = opts @ map pip_of [n]"
        using False True by (simp add: Let_def pip_of_def)
      ultimately show ?thesis by blast
    next
      case nfull: False
      from Cons.IH [of "opts @ [pip_of n]" "seen @ [tport_port (fst n)]"] obtain sel where
        sel: "subseq sel ns"
        "takeBest K ns (opts @ [pip_of n]) (seen @ [tport_port (fst n)])
           = (opts @ [pip_of n]) @ map pip_of sel" by blast
      have "subseq (n # sel) (n # ns)" using sel(1) by simp
      moreover have "takeBest K (n # ns) opts seen = opts @ map pip_of (n # sel)"
        using False nfull sel(2) by (simp add: Let_def pip_of_def)
      ultimately show ?thesis by blast
    qed
  qed
qed

lemma takeBest_distinct:
  assumes "map pip_port opts = seen" "distinct seen"
  shows "distinct (map pip_port (takeBest K ns opts seen))"
  using assms
proof (induction ns arbitrary: opts seen)
  case Nil
  then show ?case by simp
next
  case (Cons n ns)
  show ?case
  proof (cases "tport_port (fst n) \<in> set seen")
    case True
    then show ?thesis using Cons.IH [OF Cons.prems] by simp
  next
    case False
    have a: "map pip_port (opts @ [\<lparr>pip_port = tport_port (fst n), pip_phase = tport_phase (fst n)\<rparr>])
               = seen @ [tport_port (fst n)]"
      using Cons.prems(1) by simp
    have b: "distinct (seen @ [tport_port (fst n)])" using Cons.prems(2) False by simp
    show ?thesis
      using False Cons.IH [OF a b] a b
      by (simp add: Let_def del: map_append)
  qed
qed

lemma takeBest_length:
  assumes "length opts = length seen" "distinct seen" "length opts < K"
  shows "length (takeBest K ns opts seen)
           = min K (length opts + card (tport_port ` fst ` set ns - set seen))"
  using assms
proof (induction ns arbitrary: opts seen)
  case Nil
  then show ?case by simp
next
  case (Cons n ns)
  define q where "q = tport_port (fst n)"
  show ?case
  proof (cases "q \<in> set seen")
    case True
    then have "tport_port ` fst ` set (n # ns) - set seen = tport_port ` fst ` set ns - set seen"
      by (auto simp: q_def)
    then show ?thesis using True Cons.IH [OF Cons.prems] by (simp add: q_def)
  next
    case False
    define opts' where "opts' = opts @ [\<lparr>pip_port = q, pip_phase = tport_phase (fst n)\<rparr>]"
    have split: "tport_port ` fst ` set (n # ns) - set seen
                   = insert q (tport_port ` fst ` set ns - set (seen @ [q]))"
      using False by (auto simp: q_def)
    have fin: "finite (tport_port ` fst ` set ns - set (seen @ [q]))" by simp
    have notin: "q \<notin> tport_port ` fst ` set ns - set (seen @ [q])" by simp
    have card: "card (tport_port ` fst ` set (n # ns) - set seen)
                  = Suc (card (tport_port ` fst ` set ns - set (seen @ [q])))"
      unfolding split using fin notin by (rule card_insert_disjoint)
    have len': "length opts' = Suc (length opts)" by (simp add: opts'_def)
    show ?thesis
    proof (cases "length opts' \<ge> K")
      case True
      then have "length opts' = K" using Cons.prems(3) by (simp add: opts'_def)
      then show ?thesis
        using False True card len'
        by (simp add: Let_def q_def [symmetric] opts'_def [symmetric])
    next
      case nfull: False
      have "length (takeBest K ns opts' (seen @ [q]))
              = min K (length opts' + card (tport_port ` fst ` set ns - set (seen @ [q])))"
        using Cons.prems False nfull by (intro Cons.IH) (simp_all add: opts'_def)
      then show ?thesis
        using False nfull card len'
        by (simp add: Let_def q_def [symmetric] opts'_def [symmetric])
    qed
  qed
qed

subsection \<open>Edges of the temporal graph\<close>

lemma in_concat_upt: "e \<in> set (concat (map g [0..<m])) \<longleftrightarrow> (\<exists>i<m. e \<in> set (g i))"
  by (simp add: Bex_def)

lemma in_map_upt: "e \<in> set (map h [a..<b]) \<longleftrightarrow> (\<exists>j. a \<le> j \<and> j < b \<and> e = h j)"
  by (simp add: image_iff Bex_def)

lemma in_concat_map2:
  "e \<in> set (concat (map (\<lambda>i. map (f i) [0..<n]) [0..<m])) \<longleftrightarrow> (\<exists>i<m. \<exists>j<n. e = f i j)"
  by (simp only: in_concat_upt in_map_upt) simp

lemma in_concat_map3:
  "e \<in> set (concat (map (\<lambda>i. concat (map (\<lambda>j. map (f i j) [1..<k + 1]) [0..<n])) [0..<m]))
     \<longleftrightarrow> (\<exists>i<m. \<exists>j<n. \<exists>w. 1 \<le> w \<and> w \<le> k \<and> e = f i j w)"
  by (simp only: in_concat_upt in_map_upt) (simp add: less_Suc_eq_le)

lemma edges_iff:
  "e \<in> set (edges (graph (TemporalGraph_new tp))) \<longleftrightarrow>
     (\<exists>ph<num_phases tp. \<exists>po<num_ports tp. e = transfer_of (TemporalGraph_new tp) ph po)
     \<or> (\<exists>ph<num_phases tp. \<exists>po<num_ports tp. \<exists>w. 1 \<le> w \<and> w \<le> num_phases tp
            \<and> e = enqueue_of (TemporalGraph_new tp) ph po w)
     \<or> (\<exists>ph<num_phases tp. \<exists>n<num_nodes tp. e = collector_of (TemporalGraph_new tp) ph n)"
proof -
  have fr: "transfer_of (TemporalGraph_new tp) = transfer_of (createVertices (tg0 tp))"
    "enqueue_of (TemporalGraph_new tp) = enqueue_of (createVertices (tg0 tp))"
    "collector_of (TemporalGraph_new tp) = collector_of (createVertices (tg0 tp))"
    by (simp_all add: TemporalGraph_new_eq edge_of_frame)
  show ?thesis
    unfolding fr
    by (subst TemporalGraph_new_eq)
       (simp only: with_edges_simps set_append Un_iff in_concat_map2 in_concat_map3 disj_assoc)
qed

lemma enqueue_of_desc:
  assumes "wf_topology tp" "ph < num_phases tp" "po < num_ports tp"
  shows "enqueue_of (TemporalGraph_new tp) ph po w
           = (pn_desc tp ph (owner tp po), pp_desc tp ((ph + w) mod num_phases tp) po,
              \<lparr>time = int w, hop = 0, delay = 1\<rparr>)"
proof -
  have o: "owner tp po < num_nodes tp" using assms by (simp add: wf_topology_def owner_def)
  have m: "(ph + w) mod num_phases tp < num_phases tp" using assms(2) by simp
  show ?thesis
    unfolding enqueue_of_def
    by (simp add: TemporalGraph_new_fields(5) phaseAdd_def vPN_nth [OF assms(2) o]
        vPP_nth [OF m assms(3), unfolded TemporalGraph_new_fields(5)]
        vPP_nth [OF m assms(3)])
qed

lemma transfer_of_src:
  assumes "ph < num_phases tp" "po < num_ports tp"
  shows "fst (transfer_of (TemporalGraph_new tp) ph po) = pp_desc tp ph po"
  by (simp add: transfer_of_def vPP_nth [OF assms])

lemma collector_of_desc:
  assumes "ph < num_phases tp" "n < num_nodes tp"
  shows "collector_of (TemporalGraph_new tp) ph n
           = (pn_desc tp ph n, n, \<lparr>time = 0, hop = 0, delay = 0\<rparr>)"
  by (simp add: collector_of_def vPN_nth [OF assms] vNodes_nth [OF assms(2)])

lemma pn_desc_less_pp_desc:
  assumes "ph < num_phases tp" "n < num_nodes tp"
  shows "pn_desc tp ph n < pp_desc tp ph' po"
  using index_bound [OF assms] by (simp add: pn_desc_def pp_desc_def)

lemma pn_desc_inj:
  assumes "pn_desc tp ph n = pn_desc tp ph' n'" "n < num_nodes tp" "n' < num_nodes tp"
  shows "ph = ph' \<and> n = n'"
  using index_inj [of ph "num_nodes tp" n ph' n'] assms by (simp add: pn_desc_def)

text \<open>The out-edges of a phase node that lead to a phase port.\<close>

lemma out_edge_to_port:
  assumes wf: "wf_topology tp" and ph: "ph < num_phases tp" and n: "n < num_nodes tp"
    and e: "e \<in> set (out_edges (pn_desc tp ph n) (graph (TemporalGraph_new tp)))"
    and v: "vertices (graph (TemporalGraph_new tp)) ! fst (snd e) = VPort pn"
  shows "\<exists>po w. po < num_ports tp \<and> owner tp po = n \<and> 1 \<le> w \<and> w \<le> num_phases tp
           \<and> e = (pn_desc tp ph n, pp_desc tp ((ph + w) mod num_phases tp) po,
                  \<lparr>time = int w, hop = 0, delay = 1\<rparr>)
           \<and> pn = \<lparr>tport_phase = (ph + w) mod num_phases tp, tport_port = po\<rparr>"
proof -
  from e have mem: "e \<in> set (edges (graph (TemporalGraph_new tp)))"
    and src: "fst e = pn_desc tp ph n"
    by (simp_all add: out_edges_def)
  from mem consider
    (transfer) ph' po where "ph' < num_phases tp" "po < num_ports tp"
      "e = transfer_of (TemporalGraph_new tp) ph' po"
  | (enqueue) ph' po w where "ph' < num_phases tp" "po < num_ports tp" "1 \<le> w" "w \<le> num_phases tp"
      "e = enqueue_of (TemporalGraph_new tp) ph' po w"
  | (collector) ph' n' where "ph' < num_phases tp" "n' < num_nodes tp"
      "e = collector_of (TemporalGraph_new tp) ph' n'"
    unfolding edges_iff by blast
  then show ?thesis
  proof cases
    case transfer
    then have "fst e = pp_desc tp ph' po" by (simp add: transfer_of_src)
    with src pn_desc_less_pp_desc [OF ph n, of ph' po] show ?thesis by simp
  next
    case collector
    then have "fst (snd e) = n'" by (simp add: collector_of_desc)
    with v vertex_node [OF collector(2)] show ?thesis by simp
  next
    case enqueue
    have o: "owner tp po < num_nodes tp"
      using wf enqueue(2) by (simp add: wf_topology_def owner_def)
    have eq: "e = (pn_desc tp ph' (owner tp po), pp_desc tp ((ph' + w) mod num_phases tp) po,
                  \<lparr>time = int w, hop = 0, delay = 1\<rparr>)"
      using enqueue by (simp add: enqueue_of_desc [OF wf])
    with src have "pn_desc tp ph' (owner tp po) = pn_desc tp ph n" by simp
    from pn_desc_inj [OF this o n] have same: "ph' = ph" "owner tp po = n" by simp_all
    have m: "(ph + w) mod num_phases tp < num_phases tp" using ph by simp
    have "pn = \<lparr>tport_phase = (ph + w) mod num_phases tp, tport_port = po\<rparr>"
      using v vertex_pp [OF m enqueue(2)] by (simp add: eq same)
    then show ?thesis using enqueue eq same by blast
  qed
qed

lemma port_edge_exists:
  assumes wf: "wf_topology tp" and ph: "ph < num_phases tp" and n: "n < num_nodes tp"
    and po: "po < num_ports tp" and own: "owner tp po = n"
    and w: "1 \<le> w" "w \<le> num_phases tp"
  shows "(pn_desc tp ph n, pp_desc tp ((ph + w) mod num_phases tp) po,
           \<lparr>time = int w, hop = 0, delay = 1\<rparr>)
         \<in> set (out_edges (pn_desc tp ph n) (graph (TemporalGraph_new tp)))"
proof -
  have "enqueue_of (TemporalGraph_new tp) ph po w \<in> set (edges (graph (TemporalGraph_new tp)))"
    unfolding edges_iff using ph po w by blast
  then show ?thesis
    by (simp add: out_edges_def enqueue_of_desc [OF wf ph po] own)
qed

subsection \<open>Candidate lists\<close>

lemma set_map_filter_iff:
  "y \<in> set (List.map_filter g xs) \<longleftrightarrow> (\<exists>x\<in>set xs. g x = Some y)"
  by (induction xs) (auto simp: List.map_filter_simps split: option.splits)

lemma set_neighboursOf:
  "(pn, c) \<in> set (neighboursOf tg ap d v) \<longleftrightarrow>
     (\<exists>e\<in>set (out_edges v (graph tg)).
        vertices (graph tg) ! fst (snd e) = VPort pn
        \<and> c = wrap32 (edgeCost ap (snd (snd e)) + d (fst (snd e))))"
proof -
  have one: "(case vertices (graph tg) ! fst (snd e) of
               VPort pn' \<Rightarrow> Some (pn', wrap32 (edgeCost ap (snd (snd e)) + d (fst (snd e))))
             | _ \<Rightarrow> None) = Some (pn, c)
           \<longleftrightarrow> vertices (graph tg) ! fst (snd e) = VPort pn
               \<and> c = wrap32 (edgeCost ap (snd (snd e)) + d (fst (snd e)))" for e
    by (cases "vertices (graph tg) ! fst (snd e)") auto
  show ?thesis
    unfolding neighboursOf_def set_map_filter_iff Let_def by (simp only: one)
qed

lemma neighbour_ports:
  assumes wf: "wf_topology tp" and ph: "ph < num_phases tp" and n: "n < num_nodes tp"
  shows "tport_port ` fst ` set (neighboursOf (TemporalGraph_new tp) ap d (pn_desc tp ph n))
           = {po. po < num_ports tp \<and> owner tp po = n}"
proof (intro set_eqI iffI)
  fix po
  assume "po \<in> tport_port ` fst ` set (neighboursOf (TemporalGraph_new tp) ap d (pn_desc tp ph n))"
  then obtain pn c where pc: "(pn, c) \<in> set (neighboursOf (TemporalGraph_new tp) ap d (pn_desc tp ph n))"
    and po: "po = tport_port pn" by auto
  from pc obtain e where e: "e \<in> set (out_edges (pn_desc tp ph n) (graph (TemporalGraph_new tp)))"
    "vertices (graph (TemporalGraph_new tp)) ! fst (snd e) = VPort pn"
    unfolding set_neighboursOf by blast
  from out_edge_to_port [OF wf ph n e] po
  show "po \<in> {po. po < num_ports tp \<and> owner tp po = n}" by auto
next
  fix po
  assume "po \<in> {po. po < num_ports tp \<and> owner tp po = n}"
  then have po: "po < num_ports tp" "owner tp po = n" by simp_all
  have P: "1 \<le> num_phases tp" using ph by simp
  define e where "e = (pn_desc tp ph n, pp_desc tp ((ph + num_phases tp) mod num_phases tp) po,
           \<lparr>time = int (num_phases tp), hop = 0, delay = 1\<rparr>)"
  have mem: "e \<in> set (out_edges (pn_desc tp ph n) (graph (TemporalGraph_new tp)))"
    unfolding e_def using port_edge_exists [OF wf ph n po P] by simp
  have m: "(ph + num_phases tp) mod num_phases tp < num_phases tp" using ph by simp
  have v: "vertices (graph (TemporalGraph_new tp)) ! fst (snd e)
             = VPort \<lparr>tport_phase = (ph + num_phases tp) mod num_phases tp, tport_port = po\<rparr>"
    using vertex_pp [OF m po(1)] by (simp add: e_def)
  have "(\<lparr>tport_phase = (ph + num_phases tp) mod num_phases tp, tport_port = po\<rparr>,
          wrap32 (edgeCost ap (snd (snd e)) + d (fst (snd e))))
        \<in> set (neighboursOf (TemporalGraph_new tp) ap d (pn_desc tp ph n))"
    unfolding set_neighboursOf using mem v by blast
  then have "tport_port (fst (\<lparr>tport_phase = (ph + num_phases tp) mod num_phases tp, tport_port = po\<rparr>,
          wrap32 (edgeCost ap (snd (snd e)) + d (fst (snd e)))))
        \<in> tport_port ` fst ` set (neighboursOf (TemporalGraph_new tp) ap d (pn_desc tp ph n))"
    by (intro imageI)
  then show "po \<in> tport_port ` fst ` set (neighboursOf (TemporalGraph_new tp) ap d (pn_desc tp ph n))"
    by simp
qed

lemma fold_storeBest_inner:
  "fold (\<lambda>node. storeBest \<lparr>nip_node = node, nip_phase = ph\<rparr> (g node)) ns sol
     \<lparr>nip_node = n, nip_phase = ph'\<rparr>
   = (if ph' = ph \<and> n \<in> set ns then Some (g n) else sol \<lparr>nip_node = n, nip_phase = ph'\<rparr>)"
  by (induction ns arbitrary: sol) (auto simp: storeBest_def)

lemma fold_storeBest_outer:
  "fold (\<lambda>ph. fold (\<lambda>node. storeBest \<lparr>nip_node = node, nip_phase = ph\<rparr> (g ph node)) ns) phs sol
     \<lparr>nip_node = n, nip_phase = ph'\<rparr>
   = (if ph' \<in> set phs \<and> n \<in> set ns then Some (g ph' n)
      else sol \<lparr>nip_node = n, nip_phase = ph'\<rparr>)"
  by (induction phs arbitrary: sol) (auto simp: fold_storeBest_inner)

lemma solutionTable_lookup:
  "solutionTable net tg params d \<lparr>nip_node = n, nip_phase = ph\<rparr>
     = (if ph < p_num_phases (parameters net) \<and> n < p_num_nodes (parameters net)
        then Some (bestOptions tg params d ph n) else None)"
  by (simp add: solutionTable_def fold_storeBest_outer)

lemma sorted_map_subseq:
  assumes "subseq xs ys" "sorted (map f ys)"
  shows "sorted (map f xs)"
  using assms
proof (induction rule: list_emb.induct)
  case (list_emb_Nil ys)
  show ?case by simp
next
  case (list_emb_Cons xs ys y)
  then show ?case by simp
next
  case (list_emb_Cons2 x y xs ys)
  then have "sorted (map f xs)" by simp
  moreover have "\<forall>z\<in>set xs. f y \<le> f z"
    using list_emb_Cons2 by (auto dest: list_emb_set)
  ultimately show ?case using list_emb_Cons2(1) by simp
qed

subsection \<open>Stored candidate lists\<close>

lemma bestOptions_sel:
  "\<exists>sel. subseq sel (sort_key snd (neighboursOf tg (approach params) d (vPN tg ! pnIndex tg ph n)))
        \<and> bestOptions tg params d ph n = map pip_of sel"
  using takeBest_subseq [of "sort_key snd (neighboursOf tg (approach params) d (vPN tg ! pnIndex tg ph n))"
      "numPaths params" "[]" "[]"]
  by (simp add: bestOptions_def Let_def)

lemma bestOptions_distinct: "distinct (map pip_port (bestOptions tg params d ph n))"
  unfolding bestOptions_def Let_def by (rule takeBest_distinct) simp_all

lemma bestOptions_length:
  assumes "1 \<le> numPaths params"
  shows "length (bestOptions tg params d ph n)
           = min (numPaths params)
               (card (tport_port ` fst `
                  set (neighboursOf tg (approach params) d (vPN tg ! pnIndex tg ph n))))"
  using takeBest_length [of "[]" "[]" "numPaths params"
      "sort_key snd (neighboursOf tg (approach params) d (vPN tg ! pnIndex tg ph n))"] assms
  by (simp add: bestOptions_def Let_def)

lemma bestOptions_owned:
  assumes wf: "wf_topology tp" and ph: "ph < num_phases tp" and n: "n < num_nodes tp"
    and mem: "pip \<in> set (bestOptions (TemporalGraph_new tp) params d ph n)"
  shows "pip_port pip < num_ports tp \<and> owner tp (pip_port pip) = n"
proof -
  let ?tg = "TemporalGraph_new tp"
  let ?nb = "neighboursOf ?tg (approach params) d (pn_desc tp ph n)"
  from bestOptions_sel [of ?tg params d ph n]
  have "\<exists>sel. subseq sel (sort_key snd ?nb) \<and> bestOptions ?tg params d ph n = map pip_of sel"
    unfolding vPN_nth [OF ph n] .
  then obtain sel where
    sel: "subseq sel (sort_key snd ?nb)" "bestOptions ?tg params d ph n = map pip_of sel"
    by blast
  from mem have "pip \<in> pip_of ` set sel" unfolding sel(2) by simp
  then obtain c where c: "c \<in> set sel" "pip = pip_of c" by blast
  from list_emb_set [OF sel(1) c(1)] obtain y where "y \<in> set (sort_key snd ?nb)" "c = y" .
  then have "c \<in> set ?nb" by simp
  then have "tport_port (fst c) \<in> tport_port ` fst ` set ?nb" by (intro imageI)
  then have "tport_port (fst c) \<in> {po. po < num_ports tp \<and> owner tp po = n}"
    unfolding neighbour_ports [OF wf ph n] .
  then show ?thesis by (simp add: c(2) pip_of_def)
qed

lemma bestOptions_length_owned:
  assumes wf: "wf_topology tp" and ph: "ph < num_phases tp" and n: "n < num_nodes tp"
    and K: "1 \<le> numPaths params"
  shows "length (bestOptions (TemporalGraph_new tp) params d ph n)
           = min (numPaths params) (card {po. po < num_ports tp \<and> owner tp po = n})"
  using bestOptions_length [OF K, of "TemporalGraph_new tp" d ph n]
  by (simp add: vPN_nth [OF ph n] neighbour_ports [OF wf ph n])

lemma bestOptions_nonempty:
  assumes wf: "wf_topology tp" and ph: "ph < num_phases tp" and n: "n < num_nodes tp"
    and K: "1 \<le> numPaths params"
    and own: "po < num_ports tp" "owner tp po = n"
  shows "bestOptions (TemporalGraph_new tp) params d ph n \<noteq> []"
proof -
  have "finite {po. po < num_ports tp \<and> owner tp po = n}" by simp
  moreover have "po \<in> {po. po < num_ports tp \<and> owner tp po = n}" using own by simp
  ultimately have "0 < card {po. po < num_ports tp \<and> owner tp po = n}"
    by (simp add: card_gt_0_iff) blast
  then have "0 < length (bestOptions (TemporalGraph_new tp) params d ph n)"
    using K unfolding bestOptions_length_owned [OF wf ph n K] by simp
  then show ?thesis by simp
qed

subsection \<open>Bounded hashing\<close>

lemma unat_hash_bounded:
  "unat (hash_bounded x m) =
     ((unat ((0x28ec0f222c79fb46 :: 64 word) * ucast x + 0x2179c594b7d54ca2) div 2 ^ 32)
        * unat m) div 2 ^ 32"
proof -
  define w :: "64 word" where "w = 0x28ec0f222c79fb46 * ucast x + 0x2179c594b7d54ca2"
  define h where "h = unat w div 2 ^ 32"
  have w64: "unat w < 2 ^ 64" using unsigned_less [of w] by simp
  have h32: "h < 2 ^ 32" unfolding h_def using w64 by (simp add: less_mult_imp_div_less)
  have m32: "unat m < 2 ^ 32" using unsigned_less [of m] by simp
  have uh: "unat (drop_bit 32 w) = h" unfolding h_def
    by (simp add: unat_drop_bit_eq drop_bit_eq_div unat_div)
  have um: "unat (ucast m :: 64 word) = unat m"
    using m32 by (simp add: unsigned_ucast_eq take_bit_nat_eq_self)
  have "h * unat m \<le> (2 ^ 32 - 1) * (2 ^ 32 - 1)"
    using h32 m32 by (intro mult_mono) auto
  then have prod: "h * unat m < 2 ^ 64" by simp
  have up: "unat (drop_bit 32 w * ucast m) = h * unat m"
    using prod by (simp add: unat_word_ariths uh um)
  have q: "h * unat m div 2 ^ 32 < 2 ^ 32"
    using prod by (simp add: less_mult_imp_div_less)
  have "unat (drop_bit 32 (drop_bit 32 w * ucast m)) = h * unat m div 2 ^ 32"
    by (metis drop_bit_eq_div unat_drop_bit_eq up)
  then have "unat (ucast (drop_bit 32 (drop_bit 32 w * ucast m)) :: 32 word)
               = h * unat m div 2 ^ 32"
    using q by (simp add: unsigned_ucast_eq take_bit_nat_eq_self)
  then show ?thesis
    by (simp add: hash_bounded_def w_def h_def)
qed

lemma hash_bounded_less_nat:
  assumes "m \<noteq> 0"
  shows "unat (hash_bounded x m) < unat m"
proof -
  define h where
    "h = unat ((0x28ec0f222c79fb46 :: 64 word) * ucast x + 0x2179c594b7d54ca2) div 2 ^ 32"
  have "unat ((0x28ec0f222c79fb46 :: 64 word) * ucast x + 0x2179c594b7d54ca2) < 2 ^ 64"
    using unsigned_less [of "(0x28ec0f222c79fb46 :: 64 word) * ucast x + 0x2179c594b7d54ca2"]
    by simp
  then have h32: "h < 2 ^ 32" unfolding h_def by (simp add: less_mult_imp_div_less)
  have mpos: "0 < unat m" using assms by (simp add: unat_gt_0)
  have "h * unat m < 2 ^ 32 * unat m" using h32 mpos by simp
  then have "h * unat m div 2 ^ 32 < unat m"
    by (simp add: less_mult_imp_div_less mult.commute)
  then show ?thesis by (simp add: unat_hash_bounded h_def)
qed

lemma hash_bounded_zero: "hash_bounded x 0 = 0"
  by (simp add: hash_bounded_def)

lemma hash_bounded_index:
  assumes "xs \<noteq> []"
  shows "unat (hash_bounded x (word_of_nat (length xs))) < length xs"
proof (cases "(word_of_nat (length xs) :: 32 word) = 0")
  case True
  then show ?thesis using assms by (simp add: hash_bounded_zero)
next
  case False
  have "unat (word_of_nat (length xs) :: 32 word) \<le> length xs"
    by (simp add: unat_of_nat)
  with hash_bounded_less_nat [OF False, of x] show ?thesis by linarith
qed

lemma unat_hash_bounded_wrap:
  "unat (hash_bounded x m) =
     (((2948748495470328646 * unat x + 2412176317963652258) mod 2 ^ 64 div 2 ^ 32)
        * unat m) div 2 ^ 32"
proof -
  have ux: "unat (ucast x :: 64 word) = unat x"
  proof -
    have "unat x < 2 ^ 32" using unsigned_less [of x] by simp
    then show ?thesis by (simp add: unsigned_ucast_eq take_bit_nat_eq_self)
  qed
  have "unat ((0x28ec0f222c79fb46 :: 64 word) * ucast x + 0x2179c594b7d54ca2)
          = (2948748495470328646 * unat x + 2412176317963652258) mod 2 ^ 64"
    by (simp add: unat_word_ariths ux mod_simps)
  then show ?thesis by (simp only: unat_hash_bounded)
qed

lemma EgressSolution_getChoice_index:
  assumes "sol \<lparr>nip_node = node, nip_phase = ph\<rparr> = Some cpy" "cpy \<noteq> []"
  shows "\<exists>i < length cpy.
           i = unat (hash_bounded
                 ((push_bit 16 (word_of_nat ph) + word_of_nat node) XOR rnd)
                 (word_of_nat (length cpy))) \<and>
           EgressSolution_getChoice sol rnd ph node
             = Some \<lparr>port = pip_port (cpy ! i), phase = pip_phase (cpy ! i)\<rparr>"
proof -
  define i where "i = unat (hash_bounded
                 ((push_bit 16 (word_of_nat ph) + word_of_nat node) XOR rnd)
                 (word_of_nat (length cpy)))"
  have lt: "i < length cpy"
    unfolding i_def using assms(2) by (rule hash_bounded_index)
  have "EgressSolution_getChoice sol rnd ph node
          = Some \<lparr>port = pip_port (cpy ! i), phase = pip_phase (cpy ! i)\<rparr>"
    using assms lt by (simp add: EgressSolution_getChoice_def i_def Let_def)
  with lt show ?thesis unfolding i_def by blast
qed

text \<open>
  C10: \<open>hash_bounded x m\<close> is the value \<open>(((a*x + b) >> 32) * m) >> 32\<close> computed with
  the first product and sum wrapping modulo \<open>2^64\<close>; for every \<open>m \<ge> 1\<close> it is strictly
  below \<open>m\<close>. Hence, for every stored non-empty candidate list, \<open>getChoice\<close> of the
  randomized variant reads the list inside its bounds and returns one of its entries.
\<close>

theorem hash_bounded_in_bounds:
  "unat (hash_bounded x m) =
     (((2948748495470328646 * unat x + 2412176317963652258) mod 2 ^ 64 div 2 ^ 32)
        * unat m) div 2 ^ 32
   \<and> (m \<noteq> 0 \<longrightarrow> hash_bounded x m < m)
   \<and> (sol \<lparr>nip_node = node, nip_phase = ph\<rparr> = Some cpy \<and> cpy \<noteq> [] \<longrightarrow>
        (\<exists>i < length cpy.
           i = unat (hash_bounded
                 ((push_bit 16 (word_of_nat ph) + word_of_nat node) XOR rnd)
                 (word_of_nat (length cpy))) \<and>
           EgressSolution_getChoice sol rnd ph node
             = Some \<lparr>port = pip_port (cpy ! i), phase = pip_phase (cpy ! i)\<rparr>))"
proof (intro conjI impI)
  show "unat (hash_bounded x m) =
     (((2948748495470328646 * unat x + 2412176317963652258) mod 2 ^ 64 div 2 ^ 32)
        * unat m) div 2 ^ 32"
    by (rule unat_hash_bounded_wrap)
next
  assume "m \<noteq> 0"
  then show "hash_bounded x m < m"
    by (simp add: word_less_nat_alt hash_bounded_less_nat)
next
  assume a: "sol \<lparr>nip_node = node, nip_phase = ph\<rparr> = Some cpy \<and> cpy \<noteq> []"
  then show "\<exists>i < length cpy.
           i = unat (hash_bounded
                 ((push_bit 16 (word_of_nat ph) + word_of_nat node) XOR rnd)
                 (word_of_nat (length cpy))) \<and>
           EgressSolution_getChoice sol rnd ph node
             = Some \<lparr>port = pip_port (cpy ! i), phase = pip_phase (cpy ! i)\<rparr>"
    using EgressSolution_getChoice_index [of sol node ph cpy rnd] by blast
qed

theorem hash_bounded_in_bounds_witness:
  "hash_bounded 5 3 < 3
   \<and> (\<exists>i < length [\<lparr>pip_port = 2, pip_phase = 1\<rparr>, \<lparr>pip_port = 3, pip_phase = 0\<rparr>].
        i = unat (hash_bounded
              ((push_bit 16 (word_of_nat 0) + word_of_nat 1) XOR 7)
              (word_of_nat (length [\<lparr>pip_port = 2, pip_phase = 1\<rparr>,
                                    \<lparr>pip_port = 3, pip_phase = 0\<rparr>]))) \<and>
        EgressSolution_getChoice
          [\<lparr>nip_node = 1, nip_phase = 0\<rparr> \<mapsto>
             [\<lparr>pip_port = 2, pip_phase = 1\<rparr>, \<lparr>pip_port = 3, pip_phase = 0\<rparr>]]
          7 0 1
        = Some \<lparr>port = pip_port ([\<lparr>pip_port = 2, pip_phase = 1\<rparr>,
                                    \<lparr>pip_port = 3, pip_phase = 0\<rparr>] ! i),
                 phase = pip_phase ([\<lparr>pip_port = 2, pip_phase = 1\<rparr>,
                                     \<lparr>pip_port = 3, pip_phase = 0\<rparr>] ! i)\<rparr>)"
proof -
  have h: "(3 :: 32 word) \<noteq> 0" by simp
  have k: "[\<lparr>nip_node = 1, nip_phase = 0\<rparr> \<mapsto>
             [\<lparr>pip_port = 2, pip_phase = 1\<rparr>, \<lparr>pip_port = 3, pip_phase = 0\<rparr>]]
             \<lparr>nip_node = 1, nip_phase = 0\<rparr>
           = Some [\<lparr>pip_port = 2, pip_phase = 1\<rparr>, \<lparr>pip_port = 3, pip_phase = 0\<rparr>]
         \<and> [\<lparr>pip_port = 2, pip_phase = 1\<rparr>, \<lparr>pip_port = 3, pip_phase = 0\<rparr>] \<noteq> []"
    by simp
  from hash_bounded_in_bounds
    [of 5 3 "[\<lparr>nip_node = 1, nip_phase = 0\<rparr> \<mapsto>
             [\<lparr>pip_port = 2, pip_phase = 1\<rparr>, \<lparr>pip_port = 3, pip_phase = 0\<rparr>]]"
        1 0 "[\<lparr>pip_port = 2, pip_phase = 1\<rparr>, \<lparr>pip_port = 3, pip_phase = 0\<rparr>]" 7]
  show ?thesis using h k by blast
qed

subsection \<open>Port diversity\<close>

lemma constructSolutionForFlow_eq:
  "constructSolutionForFlow dsp net tg flow params
     = constructSolutionForEgress dsp net tg (egress (flows net ! flow)) params"
  by (simp add: constructSolutionForFlow_def constructSolutionForEgress_def Let_def)

lemma constructSolutionForEgress_lookup:
  assumes "ph < p_num_phases (parameters net)" "n < p_num_nodes (parameters net)"
  shows "constructSolutionForEgress dsp net tg egress_node params \<lparr>nip_node = n, nip_phase = ph\<rparr>
           = Some (bestOptions tg params
                     (snd (dsp (graph tg) (vNodes tg ! egress_node) (approach params))) ph n)"
  using assms by (simp add: constructSolutionForEgress_def Let_def solutionTable_lookup)

lemma portSuccessors_neighbours:
  "portSuccessors tg v = tport_port ` fst ` set (neighboursOf tg ap d v)"
proof (intro set_eqI iffI)
  fix po assume "po \<in> portSuccessors tg v"
  then obtain e pn where e: "e \<in> set (out_edges v (graph tg))"
    "vertices (graph tg) ! fst (snd e) = VPort pn" "tport_port pn = po"
    unfolding portSuccessors_def by blast
  then have "(pn, wrap32 (edgeCost ap (snd (snd e)) + d (fst (snd e)))) \<in> set (neighboursOf tg ap d v)"
    unfolding set_neighboursOf by blast
  then have "tport_port (fst (pn, wrap32 (edgeCost ap (snd (snd e)) + d (fst (snd e)))))
               \<in> tport_port ` fst ` set (neighboursOf tg ap d v)"
    by (intro imageI)
  then show "po \<in> tport_port ` fst ` set (neighboursOf tg ap d v)" using e(3) by simp
next
  fix po assume "po \<in> tport_port ` fst ` set (neighboursOf tg ap d v)"
  then obtain pn c where "(pn, c) \<in> set (neighboursOf tg ap d v)" "po = tport_port pn"
    by auto
  then show "po \<in> portSuccessors tg v"
    unfolding set_neighboursOf portSuccessors_def by blast
qed

text \<open>
  C5: for every egress node, every \<open>K = numPaths\<close> in \<open>[1, 8]\<close> and every phase and node
  of a well-formed network, the list the Router stores for (phase, node) has pairwise
  distinct ports, and its length is the minimum of \<open>K\<close> and the number of distinct ports
  among the phase-port successors of the phase node, which is the number of ports the
  node owns. The per-flow Router of the capacity-aware variant stores the same table as
  the per-egress Router at the flow's egress node.
\<close>

theorem router_port_diversity:
  assumes "wf_network net" "params_ok params"
    "ph < p_num_phases (parameters net)" "n < p_num_nodes (parameters net)"
  shows "\<exists>opts.
           constructSolutionForEgress dsp net (TemporalGraph_new (net_topology net))
               egress_node params \<lparr>nip_node = n, nip_phase = ph\<rparr> = Some opts
           \<and> distinct (map pip_port opts)
           \<and> length opts = min (numPaths params)
                 (card (portSuccessors (TemporalGraph_new (net_topology net))
                    (vPN (TemporalGraph_new (net_topology net))
                       ! pnIndex (TemporalGraph_new (net_topology net)) ph n)))
           \<and> portSuccessors (TemporalGraph_new (net_topology net))
                    (vPN (TemporalGraph_new (net_topology net))
                       ! pnIndex (TemporalGraph_new (net_topology net)) ph n)
               = {po. po < num_ports (net_topology net) \<and> owner (net_topology net) po = n}
           \<and> constructSolutionForFlow dsp net (TemporalGraph_new (net_topology net)) flow params
               = constructSolutionForEgress dsp net (TemporalGraph_new (net_topology net))
                   (egress (flows net ! flow)) params"
proof -
  let ?tp = "net_topology net"
  let ?tg = "TemporalGraph_new ?tp"
  let ?d = "snd (dsp (graph ?tg) (vNodes ?tg ! egress_node) (approach params))"
  have wf: "wf_topology ?tp" and ph: "ph < num_phases ?tp" and n: "n < num_nodes ?tp"
    using assms by (simp_all add: wf_network_def)
  have K: "1 \<le> numPaths params" using assms(2) by (simp add: params_ok_def)
  have look: "constructSolutionForEgress dsp net ?tg egress_node params
                \<lparr>nip_node = n, nip_phase = ph\<rparr> = Some (bestOptions ?tg params ?d ph n)"
    using assms(3,4) by (rule constructSolutionForEgress_lookup)
  have succ: "portSuccessors ?tg (vPN ?tg ! pnIndex ?tg ph n)
                = {po. po < num_ports ?tp \<and> owner ?tp po = n}"
    unfolding portSuccessors_neighbours [of ?tg _ "approach params" ?d] vPN_nth [OF ph n]
    by (rule neighbour_ports [OF wf ph n])
  have len: "length (bestOptions ?tg params ?d ph n)
               = min (numPaths params) (card (portSuccessors ?tg (vPN ?tg ! pnIndex ?tg ph n)))"
    unfolding succ by (rule bestOptions_length_owned [OF wf ph n K])
  show ?thesis
    using look bestOptions_distinct [of ?tg params ?d ph n] len succ
      constructSolutionForFlow_eq [of dsp net ?tg flow params]
    by blast
qed

subsection \<open>The example network\<close>

lemma exNet_wf: "wf_network exNet"
  by (auto simp: wf_network_def wf_topology_def exNet_def exTp_def less_Suc_eq
      numeral_2_eq_2 numeral_3_eq_3 eval_nat_numeral)

lemma exParams_ok: "params_ok exParams"
  by (simp add: params_ok_def exParams_def)

lemma ex_lookup:
  "constructSolutionForEgress exDsp exNet (TemporalGraph_new (net_topology exNet)) 1 exParams
         \<lparr>nip_node = 0, nip_phase = 0\<rparr>
   = Some [\<lparr>pip_port = 0, pip_phase = 1\<rparr>, \<lparr>pip_port = 1, pip_phase = 1\<rparr>]"
  by code_simp

lemma ex_owned_card: "card {po. po < num_ports (net_topology exNet) \<and> owner (net_topology exNet) po = 0} = 2"
proof -
  have "{po. po < num_ports (net_topology exNet) \<and> owner (net_topology exNet) po = 0} = {0, 1}"
    by (auto simp: exNet_def exTp_def owner_def less_Suc_eq numeral_3_eq_3 nth_Cons')
  then show ?thesis by simp
qed

text \<open>
  In the example node 0 owns ports 0 and 1: with \<open>K = 2\<close> the stored list for phase 0
  holds both, each once.
\<close>

theorem router_port_diversity_witness:
  "wf_network exNet \<and> params_ok exParams
   \<and> constructSolutionForEgress exDsp exNet (TemporalGraph_new (net_topology exNet)) 1 exParams
        \<lparr>nip_node = 0, nip_phase = 0\<rparr>
      = Some [\<lparr>pip_port = 0, pip_phase = 1\<rparr>, \<lparr>pip_port = 1, pip_phase = 1\<rparr>]
   \<and> distinct (map pip_port [\<lparr>pip_port = 0, pip_phase = 1\<rparr>, \<lparr>pip_port = 1, pip_phase = 1\<rparr>])
   \<and> length [\<lparr>pip_port = 0, pip_phase = 1\<rparr>, \<lparr>pip_port = 1, pip_phase = 1\<rparr>]
       = min (numPaths exParams)
           (card {po. po < num_ports (net_topology exNet) \<and> owner (net_topology exNet) po = 0})
   \<and> card {po. po < num_ports (net_topology exNet) \<and> owner (net_topology exNet) po = 0} = 2"
proof -
  have ph: "0 < p_num_phases (parameters exNet)" and n: "0 < p_num_nodes (parameters exNet)"
    by (simp_all add: exNet_def)
  from router_port_diversity [OF exNet_wf exParams_ok ph n, of exDsp 1 0]
  obtain opts where o:
    "constructSolutionForEgress exDsp exNet (TemporalGraph_new (net_topology exNet)) 1 exParams
       \<lparr>nip_node = 0, nip_phase = 0\<rparr> = Some opts"
    "distinct (map pip_port opts)"
    "length opts = min (numPaths exParams)
       (card (portSuccessors (TemporalGraph_new (net_topology exNet))
          (vPN (TemporalGraph_new (net_topology exNet))
             ! pnIndex (TemporalGraph_new (net_topology exNet)) 0 0)))"
    "portSuccessors (TemporalGraph_new (net_topology exNet))
          (vPN (TemporalGraph_new (net_topology exNet))
             ! pnIndex (TemporalGraph_new (net_topology exNet)) 0 0)
       = {po. po < num_ports (net_topology exNet) \<and> owner (net_topology exNet) po = 0}"
    by blast
  from o(1) have opts: "opts = [\<lparr>pip_port = 0, pip_phase = 1\<rparr>, \<lparr>pip_port = 1, pip_phase = 1\<rparr>]"
    unfolding ex_lookup by simp
  show ?thesis
    using exNet_wf exParams_ok ex_lookup o(2,3) ex_owned_card
    unfolding o(4) opts by blast
qed

subsection \<open>Cost ordering\<close>

lemma bestOptions_sorted:
  "\<exists>sel. bestOptions tg params d ph n = map pip_of sel
         \<and> sorted (map snd sel)
         \<and> set sel \<subseteq> set (neighboursOf tg (approach params) d (vPN tg ! pnIndex tg ph n))"
proof -
  let ?nb = "neighboursOf tg (approach params) d (vPN tg ! pnIndex tg ph n)"
  from bestOptions_sel [of tg params d ph n] obtain sel where
    sel: "subseq sel (sort_key snd ?nb)" "bestOptions tg params d ph n = map pip_of sel"
    by blast
  have "sorted (map snd (sort_key snd ?nb))" by (rule sorted_sort_key)
  with sel(1) have s: "sorted (map snd sel)" by (rule sorted_map_subseq)
  have "set sel \<subseteq> set ?nb"
  proof
    fix c assume "c \<in> set sel"
    from list_emb_set [OF sel(1) this] obtain y where "y \<in> set (sort_key snd ?nb)" "c = y" .
    then show "c \<in> set ?nb" by simp
  qed
  with sel(2) s show ?thesis by blast
qed

lemma trap_edges:
  "out_edges (vPN (TemporalGraph_new (net_topology trapNet))
                ! pnIndex (TemporalGraph_new (net_topology trapNet)) 0 0)
     (graph (TemporalGraph_new (net_topology trapNet)))
   = [(4, 8, \<lparr>time = 1, hop = 0, delay = 1\<rparr>), (4, 9, \<lparr>time = 1, hop = 0, delay = 1\<rparr>),
      (4, 0, \<lparr>time = 0, hop = 0, delay = 0\<rparr>)]"
  by code_simp

lemma trap_neighbours:
  "neighboursOf (TemporalGraph_new (net_topology trapNet)) quickest
     (snd (trapDsp (graph (TemporalGraph_new (net_topology trapNet))) 1 quickest))
     (vPN (TemporalGraph_new (net_topology trapNet))
        ! pnIndex (TemporalGraph_new (net_topology trapNet)) 0 0)
   = [(\<lparr>tport_phase = 0, tport_port = 0\<rparr>, - 2147473649),
      (\<lparr>tport_phase = 0, tport_port = 1\<rparr>, 20001)]"
  by code_simp

lemma trap_stored:
  "constructSolutionForEgress trapDsp trapNet (TemporalGraph_new (net_topology trapNet)) 1
       exParams \<lparr>nip_node = 0, nip_phase = 0\<rparr>
   = Some [\<lparr>pip_port = 0, pip_phase = 0\<rparr>, \<lparr>pip_port = 1, pip_phase = 0\<rparr>]"
  by code_simp

lemma trap_costs:
  "edgeCost quickest \<lparr>time = 1, hop = 0, delay = 1\<rparr>
     + snd (trapDsp (graph (TemporalGraph_new (net_topology trapNet))) 1 quickest) 8
   = 2147493647"
  "edgeCost quickest \<lparr>time = 1, hop = 0, delay = 1\<rparr>
     + snd (trapDsp (graph (TemporalGraph_new (net_topology trapNet))) 1 quickest) 9
   = 20001"
  by code_simp+

text \<open>
  C6 fails on the code: in the network with the trap, under the quickest policy with
  two paths, the candidates of node 0 in phase 0 are port 0 and port 1, both behind an
  edge of cost 10000. Edge cost plus distance is 2147493647 for port 0 and 20001 for
  port 1, but the sum for port 0 leaves the range of \<open>int\<close> and is computed as
  -2147473649: the sort puts port 0 first, and the stored list, port 0 before port 1, is
  in decreasing order of cost. Port 0 is also the port from which the egress cannot be
  reached.
\<close>

theorem router_cost_order_overflow:
  "out_edges (vPN (TemporalGraph_new (net_topology trapNet))
                ! pnIndex (TemporalGraph_new (net_topology trapNet)) 0 0)
     (graph (TemporalGraph_new (net_topology trapNet)))
   = [(4, 8, \<lparr>time = 1, hop = 0, delay = 1\<rparr>), (4, 9, \<lparr>time = 1, hop = 0, delay = 1\<rparr>),
      (4, 0, \<lparr>time = 0, hop = 0, delay = 0\<rparr>)]
   \<and> edgeCost quickest \<lparr>time = 1, hop = 0, delay = 1\<rparr>
       + snd (trapDsp (graph (TemporalGraph_new (net_topology trapNet))) 1 quickest) 8
     = 2147493647
   \<and> edgeCost quickest \<lparr>time = 1, hop = 0, delay = 1\<rparr>
       + snd (trapDsp (graph (TemporalGraph_new (net_topology trapNet))) 1 quickest) 9
     = 20001
   \<and> neighboursOf (TemporalGraph_new (net_topology trapNet)) quickest
       (snd (trapDsp (graph (TemporalGraph_new (net_topology trapNet))) 1 quickest))
       (vPN (TemporalGraph_new (net_topology trapNet))
          ! pnIndex (TemporalGraph_new (net_topology trapNet)) 0 0)
     = [(\<lparr>tport_phase = 0, tport_port = 0\<rparr>, - 2147473649),
        (\<lparr>tport_phase = 0, tport_port = 1\<rparr>, 20001)]
   \<and> constructSolutionForEgress trapDsp trapNet (TemporalGraph_new (net_topology trapNet)) 1
         exParams \<lparr>nip_node = 0, nip_phase = 0\<rparr>
     = Some [\<lparr>pip_port = 0, pip_phase = 0\<rparr>, \<lparr>pip_port = 1, pip_phase = 0\<rparr>]
   \<and> \<not> sorted [2147493647, 20001 :: int]"
  using trap_edges trap_costs trap_neighbours trap_stored by simp

subsection \<open>Capacity-aware selection\<close>

lemma find_if_le: "find_if P xs \<le> length xs"
  by (induction xs) simp_all

lemma find_if_found:
  "find_if P xs < length xs \<Longrightarrow> P (xs ! find_if P xs)"
  by (induction xs) (auto split: if_splits)

lemma find_if_first:
  "j < find_if P xs \<Longrightarrow> \<not> P (xs ! j)"
proof (induction xs arbitrary: j)
  case Nil
  then show ?case by simp
next
  case (Cons x xs)
  then show ?case by (cases j) (auto split: if_splits)
qed












lemma cap_choice_cases:
  assumes "flow < length (cap_pSolutions st)"
    "(cap_pSolutions st ! flow) \<lparr>nip_node = n, nip_phase = ph\<rparr> = Some cpy" "cpy \<noteq> []"
  shows "\<exists>c. cap_customGetScheduleChoice st net ph n flow = Some c
            \<and> ((\<exists>i<length cpy.
                   dless (getTotalPortLoad net (pip_port (cpy ! i))) (alternativeTreshold (cap_params st))
                   \<and> (\<forall>j<i. \<not> dless (getTotalPortLoad net (pip_port (cpy ! j)))
                                  (alternativeTreshold (cap_params st)))
                   \<and> c = \<lparr>port = pip_port (cpy ! i), phase = pip_phase (cpy ! i)\<rparr>)
               \<or> ((\<forall>j<length cpy. \<not> dless (getTotalPortLoad net (pip_port (cpy ! j)))
                                        (alternativeTreshold (cap_params st)))
                   \<and> c = \<lparr>port = pip_port (cpy ! 0), phase = pip_phase (cpy ! 0)\<rparr>))"
proof -
  define P where "P = (\<lambda>pip :: PortInPhase.
      dless (getTotalPortLoad net (pip_port pip)) (alternativeTreshold (cap_params st)))"
  define k where "k = find_if P cpy"
  have eq: "cap_customGetScheduleChoice st net ph n flow =
              (if k = length cpy
               then Some \<lparr>port = pip_port (cpy ! 0), phase = pip_phase (cpy ! 0)\<rparr>
               else Some \<lparr>port = pip_port (cpy ! k), phase = pip_phase (cpy ! k)\<rparr>)"
    using assms
    by (simp add: cap_customGetScheduleChoice_def FlowSolution_getChoice_def Let_def k_def P_def)
  show ?thesis
  proof (cases "k = length cpy")
    case True
    have "\<forall>j<length cpy. \<not> P (cpy ! j)"
      using find_if_first [of _ P cpy] True by (simp add: k_def)
    then show ?thesis using True eq by (simp add: P_def)
  next
    case False
    then have lt: "k < length cpy" using find_if_le [of P cpy] by (simp add: k_def)
    have "P (cpy ! k)" using find_if_found [of P cpy] lt by (simp add: k_def)
    moreover have "\<forall>j<k. \<not> P (cpy ! j)" using find_if_first [of _ P cpy] by (simp add: k_def)
    moreover have "cap_customGetScheduleChoice st net ph n flow
                     = Some \<lparr>port = pip_port (cpy ! k), phase = pip_phase (cpy ! k)\<rparr>"
      using False eq by simp
    ultimately show ?thesis using lt unfolding P_def by blast
  qed
qed













subsection \<open>Tables of the randomized and the capacity-aware variant\<close>

lemma assign_flows_fold:
  "length (fold (\<lambda>flow sols. if egress (fl ! flow) = e then sols[flow := s] else sols)
             [0..<k] sols) = length sols
   \<and> (\<forall>f<length sols.
         fold (\<lambda>flow sols. if egress (fl ! flow) = e then sols[flow := s] else sols)
             [0..<k] sols ! f
         = (if f < k \<and> egress (fl ! f) = e then s else sols ! f))"
proof (induction k)
  case 0
  show ?case by simp
next
  case (Suc k)
  define F where "F = fold (\<lambda>flow sols. if egress (fl ! flow) = e then sols[flow := s] else sols)
             [0..<k] sols"
  have len: "length F = length sols"
    and nth: "\<And>f. f < length sols \<Longrightarrow> F ! f = (if f < k \<and> egress (fl ! f) = e then s else sols ! f)"
    using Suc by (simp_all add: F_def)
  have step: "fold (\<lambda>flow sols. if egress (fl ! flow) = e then sols[flow := s] else sols)
             [0..<Suc k] sols = (if egress (fl ! k) = e then F[k := s] else F)"
    by (simp add: F_def)
  show ?case
    unfolding step
  proof (intro conjI allI impI)
    show "length (if egress (fl ! k) = e then F[k := s] else F) = length sols"
      using len by simp
  next
    fix f assume f: "f < length sols"
    show "(if egress (fl ! k) = e then F[k := s] else F) ! f
            = (if f < Suc k \<and> egress (fl ! f) = e then s else sols ! f)"
    proof (cases "f = k")
      case True
      then show ?thesis using f len nth [OF f] by simp
    next
      case False
      then show ?thesis using f nth [OF f] by (simp add: less_Suc_eq)
    qed
  qed
qed

lemma rnd_solutionsFor_effect:
  assumes "length (flows net) = p_num_flows (parameters net)"
    "length sols = p_num_flows (parameters net)"
  shows "length (rnd_solutionsFor dsp net (TemporalGraph_new (net_topology net)) params e sols) = p_num_flows (parameters net)
       \<and> (\<forall>f<p_num_flows (parameters net).
             rnd_solutionsFor dsp net (TemporalGraph_new (net_topology net)) params e sols ! f
             = (if egress (flows net ! f) = e
                then constructSolutionForEgress dsp net (TemporalGraph_new (net_topology net))
                       e params
                else sols ! f))"
proof (cases "list_ex (\<lambda>f. egress f = e) (flows net)")
  case True
  then show ?thesis
    using assms assign_flows_fold [of "flows net" e _ "p_num_flows (parameters net)" sols]
    by (simp add: rnd_solutionsFor_def Let_def)
next
  case False
  have "egress (flows net ! f) \<noteq> e" if "f < p_num_flows (parameters net)" for f
  proof -
    have "flows net ! f \<in> set (flows net)" using that assms(1) by simp
    with False show ?thesis by (auto simp: list_ex_iff)
  qed
  then show ?thesis using False assms by (simp add: rnd_solutionsFor_def Let_def)
qed

lemma rnd_fold_effect:
  assumes "length (flows net) = p_num_flows (parameters net)"
  shows "length (fold (rnd_solutionsFor dsp net (TemporalGraph_new (net_topology net)) params) [0..<k]
                   (replicate (p_num_flows (parameters net)) Map.empty))
           = p_num_flows (parameters net)
       \<and> (\<forall>f<p_num_flows (parameters net).
             fold (rnd_solutionsFor dsp net (TemporalGraph_new (net_topology net)) params) [0..<k]
               (replicate (p_num_flows (parameters net)) Map.empty) ! f
             = (if egress (flows net ! f) < k
                then constructSolutionForEgress dsp net (TemporalGraph_new (net_topology net))
                       (egress (flows net ! f)) params
                else Map.empty))"
proof (induction k)
  case 0
  show ?case by simp
next
  case (Suc k)
  define sols where "sols = fold (rnd_solutionsFor dsp net (TemporalGraph_new (net_topology net)) params) [0..<k]
                   (replicate (p_num_flows (parameters net)) Map.empty)"
  have len: "length sols = p_num_flows (parameters net)" using Suc by (simp add: sols_def)
  show ?case
    using rnd_solutionsFor_effect [OF assms len, of dsp params k] Suc
    by (auto simp: sols_def [symmetric] less_Suc_eq)
qed

lemma rnd_constructSolutions_nth:
  assumes "wf_network net" "flow < p_num_flows (parameters net)"
  shows "flow < length (rnd_constructSolutions dsp net params)
       \<and> rnd_constructSolutions dsp net params ! flow
           = constructSolutionForEgress dsp net (TemporalGraph_new (net_topology net))
               (egress (flows net ! flow)) params"
proof -
  have len: "length (flows net) = p_num_flows (parameters net)"
    and eg: "egress (flows net ! flow) < p_num_nodes (parameters net)"
    using assms unfolding wf_network_def by blast+
  show ?thesis
    unfolding rnd_constructSolutions_def Let_def
    using rnd_fold_effect [OF len, of dsp params "p_num_nodes (parameters net)"] assms(2) eg
    by simp
qed

lemma fold_snoc_map: "fold (\<lambda>x acc. acc @ [g x]) xs acc = acc @ map g xs"
  by (induction xs arbitrary: acc) simp_all

lemma cap_constructSolutions_nth:
  assumes "flow < p_num_flows (parameters net)"
  shows "flow < length (cap_constructSolutions dsp net params)
       \<and> cap_constructSolutions dsp net params ! flow
           = constructSolutionForEgress dsp net (TemporalGraph_new (net_topology net))
               (egress (flows net ! flow)) params"
  using assms
  by (simp add: cap_constructSolutions_def Let_def fold_snoc_map constructSolutionForFlow_eq)

lemma stored_list:
  assumes wf: "wf_network net" and K: "params_ok params"
    and ph: "ph < p_num_phases (parameters net)" and n: "n < p_num_nodes (parameters net)"
    and own: "\<exists>po<num_ports (net_topology net). owner (net_topology net) po = n"
  shows "\<exists>cpy. constructSolutionForEgress dsp net (TemporalGraph_new (net_topology net)) e params
                 \<lparr>nip_node = n, nip_phase = ph\<rparr> = Some cpy
             \<and> cpy \<noteq> []
             \<and> (\<forall>i<length cpy. pip_port (cpy ! i) < num_ports (net_topology net)
                    \<and> owner (net_topology net) (pip_port (cpy ! i)) = n)"
proof -
  let ?tp = "net_topology net"
  let ?d = "snd (dsp (graph (TemporalGraph_new ?tp)) (vNodes (TemporalGraph_new ?tp) ! e)
                 (approach params))"
  have wft: "wf_topology ?tp" and ph': "ph < num_phases ?tp" and n': "n < num_nodes ?tp"
    using wf ph n by (simp_all add: wf_network_def)
  have K1: "1 \<le> numPaths params" using K by (simp add: params_ok_def)
  from own obtain po where po: "po < num_ports ?tp" "owner ?tp po = n" by blast
  have ne: "bestOptions (TemporalGraph_new ?tp) params ?d ph n \<noteq> []"
    by (rule bestOptions_nonempty [OF wft ph' n' K1 po])
  have ow: "pip_port (bestOptions (TemporalGraph_new ?tp) params ?d ph n ! i) < num_ports ?tp
            \<and> owner ?tp (pip_port (bestOptions (TemporalGraph_new ?tp) params ?d ph n ! i)) = n"
    if "i < length (bestOptions (TemporalGraph_new ?tp) params ?d ph n)" for i
    using bestOptions_owned [OF wft ph' n', of _ params ?d] that by simp
  show ?thesis
    using constructSolutionForEgress_lookup [OF ph n, of dsp "TemporalGraph_new ?tp" e params]
      ne ow by blast
qed

lemma rnd_choice_owned:
  assumes wf: "wf_network net" and K: "params_ok params"
    and ph: "ph < p_num_phases (parameters net)" and n: "n < p_num_nodes (parameters net)"
    and fl: "flow < p_num_flows (parameters net)"
    and own: "\<exists>po<num_ports (net_topology net). owner (net_topology net) po = n"
    and st: "rnd_pSolutions st = rnd_constructSolutions dsp net params"
  shows "\<exists>c. rnd_customGetScheduleChoice st ph n flow = Some c
             \<and> port c < num_ports (net_topology net)
             \<and> owner (net_topology net) (port c) = n"
proof -
  from stored_list [OF wf K ph n own, of dsp "egress (flows net ! flow)"]
  obtain cpy where cpy:
    "constructSolutionForEgress dsp net (TemporalGraph_new (net_topology net))
       (egress (flows net ! flow)) params \<lparr>nip_node = n, nip_phase = ph\<rparr> = Some cpy"
    "cpy \<noteq> []"
    "\<forall>i<length cpy. pip_port (cpy ! i) < num_ports (net_topology net)
                    \<and> owner (net_topology net) (pip_port (cpy ! i)) = n"
    by blast
  from rnd_constructSolutions_nth [OF wf fl, of dsp params]
  have sol: "flow < length (rnd_pSolutions st)"
    "(rnd_pSolutions st ! flow) \<lparr>nip_node = n, nip_phase = ph\<rparr> = Some cpy"
    using cpy(1) by (simp_all add: st)
  from EgressSolution_getChoice_index [of "rnd_pSolutions st ! flow" n ph cpy "random_num st"]
    sol(2) cpy(2)
  obtain i where i: "i < length cpy"
    "EgressSolution_getChoice (rnd_pSolutions st ! flow) (random_num st) ph n
       = Some \<lparr>port = pip_port (cpy ! i), phase = pip_phase (cpy ! i)\<rparr>"
    by blast
  then show ?thesis
    using sol(1) cpy(3) by (simp add: rnd_customGetScheduleChoice_def)
qed

lemma cap_choice_owned:
  assumes wf: "wf_network net" and K: "params_ok (cap_params st)"
    and ph: "ph < p_num_phases (parameters net)" and n: "n < p_num_nodes (parameters net)"
    and fl: "flow < p_num_flows (parameters net)"
    and own: "\<exists>po<num_ports (net_topology net). owner (net_topology net) po = n"
    and st: "cap_pSolutions st = cap_constructSolutions dsp net (cap_params st)"
  shows "\<exists>c. cap_customGetScheduleChoice st net ph n flow = Some c
             \<and> port c < num_ports (net_topology net)
             \<and> owner (net_topology net) (port c) = n"
proof -
  from stored_list [OF wf K ph n own, of dsp "egress (flows net ! flow)"]
  obtain cpy where cpy:
    "constructSolutionForEgress dsp net (TemporalGraph_new (net_topology net))
       (egress (flows net ! flow)) (cap_params st) \<lparr>nip_node = n, nip_phase = ph\<rparr> = Some cpy"
    "cpy \<noteq> []"
    "\<forall>i<length cpy. pip_port (cpy ! i) < num_ports (net_topology net)
                    \<and> owner (net_topology net) (pip_port (cpy ! i)) = n"
    by blast
  from cap_constructSolutions_nth [OF fl, of dsp "cap_params st"]
  have sol: "flow < length (cap_pSolutions st)"
    "(cap_pSolutions st ! flow) \<lparr>nip_node = n, nip_phase = ph\<rparr> = Some cpy"
    using cpy(1) by (simp_all add: st)
  have z: "0 < length cpy" using cpy(2) by simp
  from cap_choice_cases [OF sol cpy(2), of net]
  obtain c i where "cap_customGetScheduleChoice st net ph n flow = Some c"
    "i < length cpy" "c = \<lparr>port = pip_port (cpy ! i), phase = pip_phase (cpy ! i)\<rparr>"
    using z by blast
  then show ?thesis using cpy(3) by simp
qed

subsection \<open>The fixed variant\<close>

lemma findOwnedPort_from_owned:
  assumes "\<exists>k<length xs. xs ! k = own"
  shows "\<exists>k<length xs. xs ! k = own \<and> findOwnedPort_from xs own i = i + k"
  using assms
proof (induction xs arbitrary: i)
  case Nil
  then show ?case by simp
next
  case (Cons x xs)
  show ?case
  proof (cases "x = own")
    case True
    then show ?thesis by (intro exI [of _ 0]) simp
  next
    case False
    from Cons.prems obtain k where k: "k < length (x # xs)" "(x # xs) ! k = own" by blast
    with False obtain k' where k': "k = Suc k'" by (cases k) auto
    with k have "\<exists>k<length xs. xs ! k = own" by auto
    from Cons.IH [OF this, of "Suc i"]
    obtain j where j: "j < length xs" "xs ! j = own" "findOwnedPort_from xs own (Suc i) = Suc i + j"
      by blast
    show ?thesis using j False by (intro exI [of _ "Suc j"]) simp
  qed
qed

lemma findOwnedPort_owned:
  assumes wf: "wf_topology tp" and own: "\<exists>po<num_ports tp. owner tp po = n"
  shows "findOwnedPort tp n < num_ports tp \<and> owner tp (findOwnedPort tp n) = n"
proof -
  have len: "length (portOwner tp) = num_ports tp" using wf by (simp add: wf_topology_def)
  from own have "\<exists>k<length (portOwner tp). portOwner tp ! k = n" by (simp add: len owner_def)
  from findOwnedPort_from_owned [OF this, of 0]
  show ?thesis by (auto simp: findOwnedPort_def owner_def len)
qed

lemma pn_desc_bound:
  assumes "ph < num_phases tp" "n < num_nodes tp"
  shows "pn_desc tp ph n < length (vertices (graph (TemporalGraph_new tp)))"
proof -
  have "ph * num_nodes tp + n < num_phases tp * num_nodes tp"
    using assms by (rule index_bound)
  then show ?thesis
    by (simp add: TemporalGraph_new_fields pn_desc_def length_concat comp_def sum_list_triv)
qed

lemma pn_out_edge_target:
  assumes wf: "wf_topology tp" and ph: "ph < num_phases tp" and n: "n < num_nodes tp"
    and e: "e \<in> set (edges (graph (TemporalGraph_new tp)))" and src: "fst e = pn_desc tp ph n"
  shows "(\<exists>pn. vertices (graph (TemporalGraph_new tp)) ! fst (snd e) = VPort pn)
         \<or> (\<exists>nd. vertices (graph (TemporalGraph_new tp)) ! fst (snd e) = VNode nd)"
proof -
  from e consider
      (tr) ph' po where "ph' < num_phases tp" "po < num_ports tp"
        "e = transfer_of (TemporalGraph_new tp) ph' po"
    | (en) ph' po w where "ph' < num_phases tp" "po < num_ports tp" "1 \<le> w" "w \<le> num_phases tp"
        "e = enqueue_of (TemporalGraph_new tp) ph' po w"
    | (co) ph' n' where "ph' < num_phases tp" "n' < num_nodes tp"
        "e = collector_of (TemporalGraph_new tp) ph' n'"
    unfolding edges_iff by blast
  then show ?thesis
  proof cases
    case tr
    have "fst e = pp_desc tp ph' po" unfolding tr(3) using tr(1,2) by (rule transfer_of_src)
    moreover have "pn_desc tp ph n < pp_desc tp ph' po" using ph n by (rule pn_desc_less_pp_desc)
    ultimately show ?thesis using src by simp
  next
    case en
    have P: "0 < num_phases tp" using en(1) by simp
    have eq: "e = (pn_desc tp ph' (owner tp po), pp_desc tp ((ph' + w) mod num_phases tp) po,
                   \<lparr>time = int w, hop = 0, delay = 1\<rparr>)"
      unfolding en(5) using wf en(1,2) by (rule enqueue_of_desc)
    have "(ph' + w) mod num_phases tp < num_phases tp" using P by simp
    then have "vertices (graph (TemporalGraph_new tp)) ! pp_desc tp ((ph' + w) mod num_phases tp) po
                 = VPort \<lparr>tport_phase = (ph' + w) mod num_phases tp, tport_port = po\<rparr>"
      using en(2) by (rule vertex_pp)
    then show ?thesis unfolding eq by simp
  next
    case co
    have eq: "e = (pn_desc tp ph' n', n', \<lparr>time = 0, hop = 0, delay = 0\<rparr>)"
      unfolding co(3) using co(1,2) by (rule collector_of_desc)
    have "vertices (graph (TemporalGraph_new tp)) ! n' = VNode \<lparr>tnode_node = n'\<rparr>"
      using co(2) by (rule vertex_node)
    then show ?thesis unfolding eq by simp
  qed
qed

lemma computeChoice_self:
  assumes ph: "ph < num_phases tp" and n: "n < num_nodes tp"
    and self: "p (pn_desc tp ph n) = pn_desc tp ph n"
  shows "computeChoice (TemporalGraph_new tp) p ph n = None"
proof -
  have cv: "vPN (TemporalGraph_new tp) ! pnIndex (TemporalGraph_new tp) ph n = pn_desc tp ph n"
    using ph n by (rule vPN_nth)
  have "vertices (graph (TemporalGraph_new tp)) ! pn_desc tp ph n
          = VPhaseNode \<lparr>tpn_phase = ph, tpn_node = n\<rparr>"
    using ph n by (rule vertex_pn)
  then show ?thesis
    by (simp add: computeChoice_def Let_def cv self is_TPhaseNode_def)
qed

lemma computeChoice_step:
  assumes wf: "wf_topology tp" and ph: "ph < num_phases tp" and n: "n < num_nodes tp"
    and pk: "pred_ok (TemporalGraph_new tp) p"
    and nself: "p (pn_desc tp ph n) \<noteq> pn_desc tp ph n"
  shows "\<exists>c. computeChoice (TemporalGraph_new tp) p ph n = Some c
             \<and> ((\<exists>po<num_ports tp. owner tp po = n)
                  \<longrightarrow> port c < num_ports tp \<and> owner tp (port c) = n)"
proof -
  let ?tg = "TemporalGraph_new tp"
  let ?cv = "pn_desc tp ph n"
  have cv: "vPN ?tg ! pnIndex ?tg ph n = ?cv" using ph n by (rule vPN_nth)
  have "?cv < length (vertices (graph ?tg))" using ph n by (rule pn_desc_bound)
  with pk nself obtain e where e: "e \<in> set (edges (graph ?tg))" "fst e = ?cv" "fst (snd e) = p ?cv"
    unfolding pred_ok_def by blast
  have oe: "e \<in> set (out_edges ?cv (graph ?tg))" using e(1,2) by (simp add: out_edges_def)
  from pn_out_edge_target [OF wf ph n e(1,2)]
  consider (port) pn where "vertices (graph ?tg) ! p ?cv = VPort pn"
    | (node) nd where "vertices (graph ?tg) ! p ?cv = VNode nd"
    unfolding e(3) by blast
  then show ?thesis
  proof cases
    case port
    have v: "vertices (graph ?tg) ! fst (snd e) = VPort pn" using port by (simp add: e(3))
    from out_edge_to_port [OF wf ph n oe v]
    obtain po where po: "po < num_ports tp" "owner tp po = n" "tport_port pn = po"
      by auto
    have "computeChoice ?tg p ph n = Some \<lparr>port = tport_port pn, phase = tport_phase pn\<rparr>"
      by (simp add: computeChoice_def Let_def cv port is_TPhaseNode_def)
    then show ?thesis using po by simp
  next
    case node
    have cc: "computeChoice ?tg p ph n
            = Some \<lparr>port = findOwnedPort tp n, phase = phaseAdd ?tg ph 1\<rparr>"
      by (simp add: computeChoice_def Let_def cv node is_TPhaseNode_def TemporalGraph_new_fields(5))
    show ?thesis
      unfolding cc using findOwnedPort_owned [OF wf, of n] by simp
  qed
qed

lemma computeChoice_owned:
  assumes wf: "wf_topology tp" and ph: "ph < num_phases tp" and n: "n < num_nodes tp"
    and own: "\<exists>po<num_ports tp. owner tp po = n"
    and pk: "pred_ok (TemporalGraph_new tp) p"
    and c: "computeChoice (TemporalGraph_new tp) p ph n = Some c"
  shows "port c < num_ports tp \<and> owner tp (port c) = n"
proof (cases "p (pn_desc tp ph n) = pn_desc tp ph n")
  case True
  then show ?thesis using computeChoice_self [OF ph n, of p] c by simp
next
  case False
  from computeChoice_step [OF wf ph n pk False] own c show ?thesis by auto
qed

lemma fold_opt_total:
  assumes "\<And>x t. x \<in> set xs \<Longrightarrow> \<exists>t'. f x t = Some t'"
  shows "\<exists>s'. fold_opt f xs s = Some s'"
  using assms
proof (induction xs arbitrary: s)
  case Nil
  then show ?case by simp
next
  case (Cons x xs)
  from Cons.prems [of x s] obtain t where t: "f x s = Some t" by auto
  from Cons.IH [of t] Cons.prems obtain s' where "fold_opt f xs t = Some s'" by auto
  then show ?case using t by simp
qed

lemma fold_opt_fails:
  assumes "x \<in> set xs" "\<And>t. f x t = None"
  shows "fold_opt f xs s = None"
  using assms(1)
proof (induction xs arbitrary: s)
  case Nil
  then show ?case by simp
next
  case (Cons y ys)
  show ?case
  proof (cases "f y s")
    case None
    then show ?thesis by simp
  next
    case (Some t)
    show ?thesis
    proof (cases "x = y")
      case True
      then show ?thesis using assms(2) [of s] Some by simp
    next
      case False
      then have "x \<in> set ys" using Cons.prems by simp
      from Cons.IH [OF this, of t] show ?thesis using Some by simp
    qed
  qed
qed

lemma fold_opt_dom:
  assumes "fold_opt f xs s = Some s'"
    and "\<And>x t t'. x \<in> set xs \<Longrightarrow> f x t = Some t' \<Longrightarrow> dom t \<subseteq> dom t' \<and> K x \<subseteq> dom t'"
  shows "dom s \<subseteq> dom s' \<and> (\<forall>x\<in>set xs. K x \<subseteq> dom s')"
  using assms
proof (induction xs arbitrary: s)
  case Nil
  then show ?case by simp
next
  case (Cons x xs)
  from Cons.prems(1) obtain t where t: "f x s = Some t" and r: "fold_opt f xs t = Some s'"
    by (auto split: option.splits)
  have st: "dom s \<subseteq> dom t \<and> K x \<subseteq> dom t" using Cons.prems(2) [of x s t] t by simp
  have R: "dom t \<subseteq> dom s' \<and> (\<forall>x\<in>set xs. K x \<subseteq> dom s')"
  proof (rule Cons.IH [OF r])
    fix y u u' assume "y \<in> set xs" "f y u = Some u'"
    then show "dom u \<subseteq> dom u' \<and> K y \<subseteq> dom u'" using Cons.prems(2) [of y u u'] by simp
  qed
  have "dom s \<subseteq> dom s'" using st R by (meson order_trans)
  moreover have "K x \<subseteq> dom s'" using st R by (meson order_trans)
  ultimately show ?case using R by simp
qed

lemma computeToDestination_alt:
  "computeToDestination dsp params net tg destination cache =
     fold_opt (\<lambda>i. fold_opt (storeChoice tg (pred_of dsp params tg destination) destination i)
                     [0..<p_num_nodes (parameters net)])
       [0..<p_num_phases (parameters net)] cache"
  by (simp add: computeToDestination_def pred_of_def storeChoice_def [abs_def] Let_def)

lemma storeChoice_consistent:
  assumes "cache_consistent dsp params tg cache"
    "storeChoice tg (pred_of dsp params tg destination) destination i m cache = Some cache'"
  shows "cache_consistent dsp params tg cache'"
proof -
  from assms(2) obtain c where
    c: "computeChoice tg (pred_of dsp params tg destination) i m = Some c"
    and eq: "cache' = cache(\<lparr>ca_phase = i, ca_node = m, ca_destination = destination\<rparr> \<mapsto> c)"
    by (auto simp: storeChoice_def split: option.splits)
  show ?thesis
    unfolding cache_consistent_def
  proof (intro allI impI)
    fix key c' assume k: "cache' key = Some c'"
    show "computeChoice tg (pred_of dsp params tg (ca_destination key)) (ca_phase key) (ca_node key)
            = Some c'"
    proof (cases "key = \<lparr>ca_phase = i, ca_node = m, ca_destination = destination\<rparr>")
      case True
      then show ?thesis using k c eq by simp
    next
      case False
      then have "cache key = Some c'" using k eq by simp
      then show ?thesis using assms(1) unfolding cache_consistent_def by blast
    qed
  qed
qed

lemma computeToDestination_consistent:
  assumes "cache_consistent dsp params tg cache"
    "computeToDestination dsp params net tg destination cache = Some cache'"
  shows "cache_consistent dsp params tg cache'"
proof (rule fold_opt_invariant [where I = "cache_consistent dsp params tg",
      OF assms(2) [unfolded computeToDestination_alt] assms(1)])
  fix i t t'
  assume I: "cache_consistent dsp params tg t"
    and s: "fold_opt (storeChoice tg (pred_of dsp params tg destination) destination i)
              [0..<p_num_nodes (parameters net)] t = Some t'"
  show "cache_consistent dsp params tg t'"
  proof (rule fold_opt_invariant [where I = "cache_consistent dsp params tg", OF s I])
    fix m u u'
    assume "cache_consistent dsp params tg u"
      "storeChoice tg (pred_of dsp params tg destination) destination i m u = Some u'"
    then show "cache_consistent dsp params tg u'" by (rule storeChoice_consistent)
  qed
qed

lemma storeChoice_dom:
  assumes "storeChoice tg p destination i m t = Some t'"
  shows "dom t \<subseteq> dom t'
         \<and> {\<lparr>ca_phase = i, ca_node = m, ca_destination = destination\<rparr>} \<subseteq> dom t'"
  using assms by (auto simp: storeChoice_def split: option.splits)

lemma computeToDestination_present:
  assumes c: "computeToDestination dsp params net tg destination cache = Some cache'"
    and i: "i < p_num_phases (parameters net)" and m: "m < p_num_nodes (parameters net)"
  shows "\<exists>c. cache' \<lparr>ca_phase = i, ca_node = m, ca_destination = destination\<rparr> = Some c"
proof -
  let ?p = "pred_of dsp params tg destination"
  let ?N = "p_num_nodes (parameters net)"
  let ?K = "\<lambda>i. {\<lparr>ca_phase = i, ca_node = m, ca_destination = destination\<rparr> | m. m < ?N}"
  have inner: "dom t \<subseteq> dom t' \<and> ?K j \<subseteq> dom t'"
    if s: "fold_opt (storeChoice tg ?p destination j) [0..<?N] t = Some t'" for j t t'
  proof -
    have "dom t \<subseteq> dom t' \<and> (\<forall>x\<in>set [0..<?N].
             {\<lparr>ca_phase = j, ca_node = x, ca_destination = destination\<rparr>} \<subseteq> dom t')"
    proof (rule fold_opt_dom [OF s])
      fix x u u'
      assume "storeChoice tg ?p destination j x u = Some u'"
      then show "dom u \<subseteq> dom u'
         \<and> {\<lparr>ca_phase = j, ca_node = x, ca_destination = destination\<rparr>} \<subseteq> dom u'"
        by (rule storeChoice_dom)
    qed
    then show ?thesis by auto
  qed
  have "dom cache \<subseteq> dom cache' \<and> (\<forall>x\<in>set [0..<p_num_phases (parameters net)]. ?K x \<subseteq> dom cache')"
  proof (rule fold_opt_dom [OF c [unfolded computeToDestination_alt]])
    fix x t t'
    assume "fold_opt (storeChoice tg ?p destination x) [0..<?N] t = Some t'"
    then show "dom t \<subseteq> dom t' \<and> ?K x \<subseteq> dom t'" by (rule inner)
  qed
  then have "?K i \<subseteq> dom cache'" using i by simp
  then have "\<lparr>ca_phase = i, ca_node = m, ca_destination = destination\<rparr> \<in> dom cache'"
    using m by blast
  then show ?thesis by blast
qed

lemma computeToDestination_total:
  assumes "\<And>i m. i < p_num_phases (parameters net) \<Longrightarrow> m < p_num_nodes (parameters net)
             \<Longrightarrow> \<exists>c. computeChoice tg (pred_of dsp params tg destination) i m = Some c"
  shows "\<exists>cache'. computeToDestination dsp params net tg destination cache = Some cache'"
  unfolding computeToDestination_alt
proof (rule fold_opt_total)
  fix i t assume "i \<in> set [0..<p_num_phases (parameters net)]"
  then have i: "i < p_num_phases (parameters net)" by simp
  show "\<exists>t'. fold_opt (storeChoice tg (pred_of dsp params tg destination) destination i)
               [0..<p_num_nodes (parameters net)] t = Some t'"
  proof (rule fold_opt_total)
    fix m u assume "m \<in> set [0..<p_num_nodes (parameters net)]"
    then have "m < p_num_nodes (parameters net)" by simp
    from assms [OF i this] show "\<exists>u'. storeChoice tg (pred_of dsp params tg destination)
                                      destination i m u = Some u'"
      by (auto simp: storeChoice_def)
  qed
qed

lemma computeToDestination_fails:
  assumes i: "i < p_num_phases (parameters net)" and m: "m < p_num_nodes (parameters net)"
    and n: "computeChoice tg (pred_of dsp params tg destination) i m = None"
  shows "computeToDestination dsp params net tg destination cache = None"
  unfolding computeToDestination_alt
proof (rule fold_opt_fails [of i])
  show "i \<in> set [0..<p_num_phases (parameters net)]" using i by simp
next
  fix t
  show "fold_opt (storeChoice tg (pred_of dsp params tg destination) destination i)
          [0..<p_num_nodes (parameters net)] t = None"
  proof (rule fold_opt_fails [of m])
    show "m \<in> set [0..<p_num_nodes (parameters net)]" using m by simp
  next
    fix u show "storeChoice tg (pred_of dsp params tg destination) destination i m u = None"
      using n by (simp add: storeChoice_def)
  qed
qed

lemma cache_consistent_empty: "cache_consistent dsp params tg Map.empty"
  by (simp add: cache_consistent_def)

lemma cachedChoice_value:
  assumes I: "cache_consistent dsp params tg cache"
    and r: "cachedChoice dsp params net tg cache ph n flow = Some (c, cache')"
  shows "cache_consistent dsp params tg cache'
         \<and> computeChoice tg (pred_of dsp params tg (egress (flows net ! flow))) ph n = Some c"
proof -
  let ?key = "\<lparr>ca_phase = ph, ca_node = n, ca_destination = egress (flows net ! flow)\<rparr>"
  show ?thesis
  proof (cases "cache ?key")
    case (Some c0)
    then have "c = c0" "cache' = cache" using r by (simp_all add: cachedChoice_def Let_def)
    moreover have "computeChoice tg (pred_of dsp params tg (ca_destination ?key))
                     (ca_phase ?key) (ca_node ?key) = Some c0"
      using I Some unfolding cache_consistent_def by blast
    ultimately show ?thesis using I by simp
  next
    case None
    from r None obtain c1 where
      c1: "computeToDestination dsp params net tg (egress (flows net ! flow)) cache = Some c1"
      by (auto simp: cachedChoice_def Let_def split: option.splits)
    from r None c1 have k: "c1 ?key = Some c" and eq: "cache' = c1"
      by (auto simp: cachedChoice_def Let_def split: option.splits)
    have I1: "cache_consistent dsp params tg c1"
      using I c1 by (rule computeToDestination_consistent)
    have "computeChoice tg (pred_of dsp params tg (ca_destination ?key))
                     (ca_phase ?key) (ca_node ?key) = Some c"
      using I1 k unfolding cache_consistent_def by blast
    then show ?thesis using I1 eq by simp
  qed
qed

lemma cachedChoice_total:
  assumes ph: "ph < p_num_phases (parameters net)" and n: "n < p_num_nodes (parameters net)"
    and tot: "\<And>i m. i < p_num_phases (parameters net) \<Longrightarrow> m < p_num_nodes (parameters net)
             \<Longrightarrow> \<exists>c. computeChoice tg (pred_of dsp params tg (egress (flows net ! flow))) i m
                       = Some c"
  shows "\<exists>c cache'. cachedChoice dsp params net tg cache ph n flow = Some (c, cache')"
proof -
  let ?key = "\<lparr>ca_phase = ph, ca_node = n, ca_destination = egress (flows net ! flow)\<rparr>"
  show ?thesis
  proof (cases "cache ?key")
    case (Some c0)
    then show ?thesis by (simp add: cachedChoice_def Let_def)
  next
    case None
    from computeToDestination_total [of net tg dsp params "egress (flows net ! flow)" cache] tot
    obtain c1 where
      c1: "computeToDestination dsp params net tg (egress (flows net ! flow)) cache = Some c1"
      by blast
    from computeToDestination_present [OF c1 ph n] obtain c where "c1 ?key = Some c" by blast
    then show ?thesis using None c1 by (simp add: cachedChoice_def Let_def)
  qed
qed

lemma cachedChoice_fails:
  assumes ph: "ph < p_num_phases (parameters net)" and n: "n < p_num_nodes (parameters net)"
    and f: "computeChoice tg (pred_of dsp params tg (egress (flows net ! flow))) ph n = None"
  shows "cachedChoice dsp params net tg Map.empty ph n flow = None"
  using computeToDestination_fails [OF ph n f, of Map.empty]
  by (simp add: cachedChoice_def Let_def)

lemma all_reach_iff:
  "all_reach tg net p \<longleftrightarrow>
     (\<forall>i<p_num_phases (parameters net). \<forall>m<p_num_nodes (parameters net).
        p (vPN tg ! pnIndex tg i m) \<noteq> vPN tg ! pnIndex tg i m)"
  by (auto simp: all_reach_def list_all_iff)

lemma verifyScheduler_iff:
  "verifyScheduler M ext \<longleftrightarrow>
     (\<forall>f<NUM_FLOWS M. \<forall>i<NUM_PHASES M. \<forall>n<NUM_NODES M.
        PORT_OWNER M (port (getChoice ext i n f)) = n)"
  by (auto simp: verifyScheduler_def list_all_iff)

subsection \<open>Choice ownership\<close>

lemma pred_ok_code:
  "pred_ok tg p \<longleftrightarrow>
     list_all (\<lambda>v. p v = v \<or> list_ex (\<lambda>e. fst e = v \<and> fst (snd e) = p v) (edges (graph tg)))
       [0..<length (vertices (graph tg))]"
  by (auto simp: pred_ok_def list_all_iff list_ex_iff)

lemma isoNet_wf: "wf_network isoNet"
  by (auto simp: wf_network_def wf_topology_def isoNet_def isoTp_def less_Suc_eq
      numeral_2_eq_2 numeral_3_eq_3 eval_nat_numeral)

lemma iso_pred_ok:
  "pred_ok (TemporalGraph_new (net_topology isoNet))
     (pred_of isoDsp exParams (TemporalGraph_new (net_topology isoNet)) (egress (flows isoNet ! 0)))"
  unfolding pred_ok_code by code_simp

lemma iso_edges:
  "filter (\<lambda>e. fst (snd e) = 2) (edges (graph (TemporalGraph_new (net_topology isoNet))))
     = [(5, 2, \<lparr>time = 0, hop = 0, delay = 0\<rparr>)]"
  "filter (\<lambda>e. fst (snd e) = 5) (edges (graph (TemporalGraph_new (net_topology isoNet)))) = []"
  by code_simp+

lemma iso_choice:
  "computeChoice (TemporalGraph_new (net_topology isoNet))
     (pred_of isoDsp exParams (TemporalGraph_new (net_topology isoNet)) (egress (flows isoNet ! 0)))
     0 0 = None"
  by code_simp

lemma ex_pred_ok:
  "pred_ok (TemporalGraph_new (net_topology exNet))
     (pred_of exDsp exParams (TemporalGraph_new (net_topology exNet)) (egress (flows exNet ! 0)))"
  unfolding pred_ok_code by code_simp

lemma ex_all_reach:
  "all_reach (TemporalGraph_new (net_topology exNet)) exNet
     (pred_of exDsp exParams (TemporalGraph_new (net_topology exNet)) (egress (flows exNet ! 0)))"
  by code_simp

text \<open>
  Where the variants return a choice, its port is owned by the node. In a well-formed
  network, for a phase, a node that owns at least one port, and a flow: the randomized
  and the capacity-aware variant (with \<open>1 \<le> numPaths \<le> 8\<close>, which \<open>readEnvVars\<close>
  enforces, and the tables built by \<open>constructSolutions\<close>) return a choice whose port
  the node owns. The fixed variant, from a cache that holds only choices it computed
  itself and with a predecessor map whose entries are the vertex itself or the head of
  an edge leaving it, returns a port the node owns whenever it returns; it returns when
  the search has given every phase-node a predecessor other than itself, and from the
  empty cache it returns nothing when some phase-node has kept itself as predecessor.
\<close>

lemma choice_ownership:
  assumes wf: "wf_network net"
    and ph: "ph < p_num_phases (parameters net)" and n: "n < p_num_nodes (parameters net)"
    and fl: "flow < p_num_flows (parameters net)"
    and own: "\<exists>po<num_ports (net_topology net). owner (net_topology net) po = n"
  shows "(params_ok params \<and> rnd_pSolutions rst = rnd_constructSolutions dsp net params
            \<longrightarrow> (\<exists>c. rnd_customGetScheduleChoice rst ph n flow = Some c
                     \<and> owner (net_topology net) (port c) = n))
       \<and> (params_ok (cap_params cst)
            \<and> cap_pSolutions cst = cap_constructSolutions dsp net (cap_params cst)
            \<longrightarrow> (\<exists>c. cap_customGetScheduleChoice cst net ph n flow = Some c
                     \<and> owner (net_topology net) (port c) = n))
       \<and> (pred_ok (TemporalGraph_new (net_topology net))
              (pred_of dsp params (TemporalGraph_new (net_topology net)) (egress (flows net ! flow)))
            \<and> cache_consistent dsp params (TemporalGraph_new (net_topology net)) cache
            \<longrightarrow> (\<forall>c cache'. cachedChoice dsp params net (TemporalGraph_new (net_topology net))
                               cache ph n flow = Some (c, cache')
                     \<longrightarrow> owner (net_topology net) (port c) = n
                         \<and> cache_consistent dsp params (TemporalGraph_new (net_topology net)) cache')
                \<and> (all_reach (TemporalGraph_new (net_topology net)) net
                      (pred_of dsp params (TemporalGraph_new (net_topology net))
                         (egress (flows net ! flow)))
                     \<longrightarrow> (\<exists>c cache'. cachedChoice dsp params net
                                        (TemporalGraph_new (net_topology net))
                                        cache ph n flow = Some (c, cache')))
                \<and> (\<not> all_reach (TemporalGraph_new (net_topology net)) net
                        (pred_of dsp params (TemporalGraph_new (net_topology net))
                           (egress (flows net ! flow)))
                     \<longrightarrow> cachedChoice dsp params net (TemporalGraph_new (net_topology net))
                           Map.empty ph n flow = None))"
proof -
  let ?tp = "net_topology net"
  let ?tg = "TemporalGraph_new ?tp"
  let ?p = "pred_of dsp params ?tg (egress (flows net ! flow))"
  have wft: "wf_topology ?tp" and P: "p_num_phases (parameters net) = num_phases ?tp"
    and N: "p_num_nodes (parameters net) = num_nodes ?tp"
    using wf unfolding wf_network_def by blast+
  have ph': "ph < num_phases ?tp" and n': "n < num_nodes ?tp" using ph n P N by simp_all
  have rnd: "\<exists>c. rnd_customGetScheduleChoice rst ph n flow = Some c \<and> owner ?tp (port c) = n"
    if "params_ok params" "rnd_pSolutions rst = rnd_constructSolutions dsp net params"
    using rnd_choice_owned [OF wf that(1) ph n fl own that(2)] by blast
  have cap: "\<exists>c. cap_customGetScheduleChoice cst net ph n flow = Some c \<and> owner ?tp (port c) = n"
    if "params_ok (cap_params cst)"
      "cap_pSolutions cst = cap_constructSolutions dsp net (cap_params cst)"
    using cap_choice_owned [OF wf that(1) ph n fl own that(2)] by blast
  have fixed_owned: "owner ?tp (port c) = n \<and> cache_consistent dsp params ?tg cache'"
    if pk: "pred_ok ?tg ?p" and I: "cache_consistent dsp params ?tg cache"
      and r: "cachedChoice dsp params net ?tg cache ph n flow = Some (c, cache')" for c cache'
  proof -
    from cachedChoice_value [OF I r]
    have I': "cache_consistent dsp params ?tg cache'" and c: "computeChoice ?tg ?p ph n = Some c"
      by simp_all
    from computeChoice_owned [OF wft ph' n' own pk c] I' show ?thesis by simp
  qed
  have fixed_total: "\<exists>c cache'. cachedChoice dsp params net ?tg cache ph n flow = Some (c, cache')"
    if pk: "pred_ok ?tg ?p" and ar: "all_reach ?tg net ?p"
  proof (rule cachedChoice_total [OF ph n])
    fix i m assume i: "i < p_num_phases (parameters net)" and m: "m < p_num_nodes (parameters net)"
    then have i': "i < num_phases ?tp" and m': "m < num_nodes ?tp" using P N by simp_all
    have "?p (vPN ?tg ! pnIndex ?tg i m) \<noteq> vPN ?tg ! pnIndex ?tg i m"
      using ar i m unfolding all_reach_iff by blast
    then have "?p (pn_desc ?tp i m) \<noteq> pn_desc ?tp i m"
      unfolding vPN_nth [OF i' m'] .
    from computeChoice_step [OF wft i' m' pk this]
    show "\<exists>c. computeChoice ?tg ?p i m = Some c" by blast
  qed
  have fixed_fails: "cachedChoice dsp params net ?tg Map.empty ph n flow = None"
    if nar: "\<not> all_reach ?tg net ?p"
  proof -
    from nar obtain i m where i: "i < p_num_phases (parameters net)"
      and m: "m < p_num_nodes (parameters net)"
      and s: "?p (vPN ?tg ! pnIndex ?tg i m) = vPN ?tg ! pnIndex ?tg i m"
      unfolding all_reach_iff by blast
    have i': "i < num_phases ?tp" and m': "m < num_nodes ?tp" using i m P N by simp_all
    have "?p (pn_desc ?tp i m) = pn_desc ?tp i m" using s unfolding vPN_nth [OF i' m'] .
    then have "computeChoice ?tg ?p i m = None" by (rule computeChoice_self [OF i' m'])
    from computeToDestination_fails [OF i m this, of Map.empty]
    show ?thesis by (simp add: cachedChoice_def Let_def)
  qed
  show ?thesis
    using rnd cap fixed_owned fixed_total fixed_fails by blast
qed

text \<open>
  When every node owns a port and the model's constants are those of the network,
  \<open>verifyScheduler\<close> returns true for the randomized and for the capacity-aware variant.
\<close>

lemma verifyScheduler_variants:
  assumes wf: "wf_network net"
    and own: "\<forall>m<p_num_nodes (parameters net).
                 \<exists>po<num_ports (net_topology net). owner (net_topology net) po = m"
    and M: "NUM_FLOWS M = p_num_flows (parameters net)"
      "NUM_PHASES M = p_num_phases (parameters net)"
      "NUM_NODES M = p_num_nodes (parameters net)"
      "\<forall>po<num_ports (net_topology net). PORT_OWNER M po = owner (net_topology net) po"
  shows "params_ok params \<and> rnd_pSolutions rst = rnd_constructSolutions dsp net params
           \<longrightarrow> verifyScheduler M (\<lambda>i n f. the (rnd_customGetScheduleChoice rst i n f))"
    and "params_ok (cap_params cst)
           \<and> cap_pSolutions cst = cap_constructSolutions dsp net (cap_params cst)
           \<longrightarrow> verifyScheduler M (\<lambda>i n f. the (cap_customGetScheduleChoice cst net i n f))"
proof -
  show "params_ok params \<and> rnd_pSolutions rst = rnd_constructSolutions dsp net params
           \<longrightarrow> verifyScheduler M (\<lambda>i n f. the (rnd_customGetScheduleChoice rst i n f))"
  proof
    assume a: "params_ok params \<and> rnd_pSolutions rst = rnd_constructSolutions dsp net params"
    show "verifyScheduler M (\<lambda>i n f. the (rnd_customGetScheduleChoice rst i n f))"
      unfolding verifyScheduler_iff getChoice_def
    proof (intro allI impI)
      fix f i m assume f: "f < NUM_FLOWS M" and i: "i < NUM_PHASES M" and m: "m < NUM_NODES M"
      have o: "\<exists>po<num_ports (net_topology net). owner (net_topology net) po = m"
        using own m M(3) by simp
      from rnd_choice_owned [OF wf _ _ _ _ o, of params i f rst dsp] a f i m M(1,2,3)
      obtain c where c: "rnd_customGetScheduleChoice rst i m f = Some c"
        "port c < num_ports (net_topology net)" "owner (net_topology net) (port c) = m"
        by auto
      then show "PORT_OWNER M (port (the (rnd_customGetScheduleChoice rst i m f))) = m"
        using M(4) by simp
    qed
  qed
  show "params_ok (cap_params cst)
           \<and> cap_pSolutions cst = cap_constructSolutions dsp net (cap_params cst)
           \<longrightarrow> verifyScheduler M (\<lambda>i n f. the (cap_customGetScheduleChoice cst net i n f))"
  proof
    assume a: "params_ok (cap_params cst)
           \<and> cap_pSolutions cst = cap_constructSolutions dsp net (cap_params cst)"
    show "verifyScheduler M (\<lambda>i n f. the (cap_customGetScheduleChoice cst net i n f))"
      unfolding verifyScheduler_iff getChoice_def
    proof (intro allI impI)
      fix f i m assume f: "f < NUM_FLOWS M" and i: "i < NUM_PHASES M" and m: "m < NUM_NODES M"
      have o: "\<exists>po<num_ports (net_topology net). owner (net_topology net) po = m"
        using own m M(3) by simp
      from cap_choice_owned [OF wf _ _ _ _ o, of cst i f dsp] a f i m M(1,2,3)
      obtain c where c: "cap_customGetScheduleChoice cst net i m f = Some c"
        "port c < num_ports (net_topology net)" "owner (net_topology net) (port c) = m"
        by auto
      then show "PORT_OWNER M (port (the (cap_customGetScheduleChoice cst net i m f))) = m"
        using M(4) by simp
    qed
  qed
qed

lemma iso_topology: "verifyTopology isoM"
  by code_simp

lemma iso_owner: "map (owner (net_topology isoNet)) [0..<3] = [0, 1, 2]"
  by code_simp

lemma iso_graph:
  "map (\<lambda>e. (fst e, fst (snd e))) (edges (graph (TemporalGraph_new (net_topology isoNet))))
     = [(6, 4), (7, 3), (8, 3), (3, 6), (4, 7), (5, 8), (3, 0), (4, 1), (5, 2)]"
  "vPN (TemporalGraph_new (net_topology isoNet))
     ! pnIndex (TemporalGraph_new (net_topology isoNet)) 0 0 = 3"
  "map (pred_of isoDsp exParams (TemporalGraph_new (net_topology isoNet))
          (egress (flows isoNet ! 0))) [0..<9]
     = [0, 1, 2, 3, 4, 2, 6, 7, 8]"
  by code_simp+

lemma iso_fallback: "findOwnedPort (net_topology isoNet) 0 = 0"
  by code_simp

lemma iso_rnd: "rnd_customGetScheduleChoice isoRnd 0 0 0 = Some \<lparr>port = 0, phase = 0\<rparr>"
  by code_simp

lemma iso_cap: "cap_customGetScheduleChoice isoCap isoNet 0 0 0 = Some \<lparr>port = 0, phase = 0\<rparr>"
  by code_simp

lemma iso_verify:
  "verifyScheduler isoM (\<lambda>i n f. the (rnd_customGetScheduleChoice isoRnd i n f))"
  "verifyScheduler isoM (\<lambda>i n f. the (cap_customGetScheduleChoice isoCap isoNet i n f))"
  by code_simp+

text \<open>
  C1 fails on the code, for the fixed variant: in the network with the unreachable
  egress, which is well formed, passes \<open>verifyTopology\<close> and in which every node owns a
  port, no edge leads from the phase-node of node 0 (vertex 3) towards node 2: the
  phase-node keeps itself as predecessor, the assertion of
  \<open>computeToDestination\<close> that the next vertex is no phase-node fails, and the query for
  phase 0, node 0 and flow 0 returns no choice, although the port that \<open>findOwnedPort\<close>
  has found for the node, port 0, is owned by it. On the same network the randomized
  and the capacity-aware variant answer the query with port 0, and \<open>verifyScheduler\<close>
  returns true for both.
\<close>

theorem fixed_choice_unreachable:
  "verifyTopology isoM
   \<and> map (owner (net_topology isoNet)) [0..<3] = [0, 1, 2]
   \<and> findOwnedPort (net_topology isoNet) 0 = 0
   \<and> map (\<lambda>e. (fst e, fst (snd e))) (edges (graph (TemporalGraph_new (net_topology isoNet))))
       = [(6, 4), (7, 3), (8, 3), (3, 6), (4, 7), (5, 8), (3, 0), (4, 1), (5, 2)]
   \<and> vPN (TemporalGraph_new (net_topology isoNet))
         ! pnIndex (TemporalGraph_new (net_topology isoNet)) 0 0 = 3
   \<and> map (pred_of isoDsp exParams (TemporalGraph_new (net_topology isoNet))
            (egress (flows isoNet ! 0))) [0..<9]
       = [0, 1, 2, 3, 4, 2, 6, 7, 8]
   \<and> cachedChoice isoDsp exParams isoNet (TemporalGraph_new (net_topology isoNet))
        Map.empty 0 0 0 = None
   \<and> rnd_customGetScheduleChoice isoRnd 0 0 0 = Some \<lparr>port = 0, phase = 0\<rparr>
   \<and> cap_customGetScheduleChoice isoCap isoNet 0 0 0 = Some \<lparr>port = 0, phase = 0\<rparr>
   \<and> verifyScheduler isoM (\<lambda>i n f. the (rnd_customGetScheduleChoice isoRnd i n f))
   \<and> verifyScheduler isoM (\<lambda>i n f. the (cap_customGetScheduleChoice isoCap isoNet i n f))"
proof -
  have ph: "0 < p_num_phases (parameters isoNet)" and n: "0 < p_num_nodes (parameters isoNet)"
    by (simp_all add: isoNet_def)
  have "cachedChoice isoDsp exParams isoNet (TemporalGraph_new (net_topology isoNet))
        Map.empty 0 0 0 = None"
    using ph n iso_choice by (rule cachedChoice_fails)
  then show ?thesis
    using iso_topology iso_owner iso_fallback iso_graph iso_rnd iso_cap iso_verify
    by blast
qed

subsection \<open>Choice determinism\<close>

lemma answers_pure:
  assumes step: "\<And>st q a st'. I st \<Longrightarrow> step st q = Some (a, st') \<Longrightarrow> a = g q \<and> I st'"
    and "I st" "answers step st qs = Some as"
  shows "length as = length qs \<and> (\<forall>i<length qs. as ! i = g (qs ! i))"
  using assms(2,3)
proof (induction qs arbitrary: st as)
  case Nil
  then show ?case by simp
next
  case (Cons q qs)
  from Cons.prems(2) obtain a st' bs where
    s: "step st q = Some (a, st')" and r: "answers step st' qs = Some bs" and as: "as = a # bs"
    by (auto split: option.splits)
  from step [OF Cons.prems(1) s] have a: "a = g q" and I': "I st'" by simp_all
  from Cons.IH [OF I' r] have len: "length bs = length qs"
    and nth: "\<forall>i<length qs. bs ! i = g (qs ! i)" by simp_all
  show ?case
  proof (intro conjI allI impI)
    show "length as = length (q # qs)" using len as by simp
  next
    fix i assume "i < length (q # qs)"
    then show "as ! i = g ((q # qs) ! i)" using nth a as by (cases i) simp_all
  qed
qed

lemma rnd_answers:
  assumes "answers rnd_query st qs = Some as"
  shows "length as = length qs
         \<and> (\<forall>i<length qs. as ! i = fst (the (rnd_query st (qs ! i))))"
proof (rule answers_pure [where I = "\<lambda>s. s = st", OF _ _ assms])
  fix s q a s'
  assume "s = st" "rnd_query s q = Some (a, s')"
  then show "a = fst (the (rnd_query st q)) \<and> s' = st"
    by (auto simp: rnd_query_def split: prod.splits option.splits)
qed simp

lemma cap_answers:
  assumes "answers cap_query st qs = Some as"
  shows "length as = length qs
         \<and> (\<forall>i<length qs. as ! i = fst (the (cap_query st (qs ! i))))"
proof (rule answers_pure [where I = "\<lambda>s. s = st", OF _ _ assms])
  fix s q a s'
  assume "s = st" "cap_query s q = Some (a, s')"
  then show "a = fst (the (cap_query st q)) \<and> s' = st"
    by (auto simp: cap_query_def split: prod.splits option.splits)
qed simp

lemma fixed_answers:
  assumes I: "cache_consistent dsp params tg cache"
    and a: "answers (fixed_query dsp params net tg) cache qs = Some as"
  shows "length as = length qs
         \<and> (\<forall>i<length qs. as ! i =
               (case qs ! i of (phase_i, node, flow) \<Rightarrow>
                  the (computeChoice tg (pred_of dsp params tg (egress (flows net ! flow)))
                         phase_i node)))"
proof (rule answers_pure [where I = "cache_consistent dsp params tg", OF _ I a])
  fix s q c s'
  assume I: "cache_consistent dsp params tg s" and q: "fixed_query dsp params net tg s q = Some (c, s')"
  obtain phase_i node flow where qe: "q = (phase_i, node, flow)" by (cases q) auto
  from q have "cachedChoice dsp params net tg s phase_i node flow = Some (c, s')"
    by (simp add: fixed_query_def qe)
  from cachedChoice_value [OF I this]
  show "c = (case q of (phase_i, node, flow) \<Rightarrow>
                  the (computeChoice tg (pred_of dsp params tg (egress (flows net ! flow)))
                         phase_i node))
        \<and> cache_consistent dsp params tg s'"
    by (simp add: qe)
qed

text \<open>
  C4: within a prepare window two queries with equal arguments get equal answers, in every
  variant. The randomized and the capacity-aware variant answer from a state that the
  queries leave as it is. The fixed variant fills its cache while it answers: whatever
  queries \<open>pre\<close> it has answered since \<open>customSetup\<close> emptied the cache, the answers to the
  queries \<open>qs\<close> of the window agree on equal arguments.
\<close>

theorem choice_deterministic_in_window:
  assumes i: "i < length qs" and j: "j < length qs" and eq: "qs ! i = qs ! j"
  shows "(answers rnd_query rst qs = Some ra \<longrightarrow> length ra = length qs \<and> ra ! i = ra ! j)
       \<and> (answers cap_query (cst, net) qs = Some ca \<longrightarrow> length ca = length qs \<and> ca ! i = ca ! j)
       \<and> (answers (fixed_query dsp params net tg) Map.empty (pre @ qs) = Some fa
            \<longrightarrow> length fa = length pre + length qs
                \<and> fa ! (length pre + i) = fa ! (length pre + j))"
proof (intro conjI impI)
  assume "answers rnd_query rst qs = Some ra"
  from rnd_answers [OF this] show "length ra = length qs" "ra ! i = ra ! j"
    using i j eq by simp_all
next
  assume "answers cap_query (cst, net) qs = Some ca"
  from cap_answers [OF this] show "length ca = length qs" "ca ! i = ca ! j"
    using i j eq by simp_all
next
  assume a: "answers (fixed_query dsp params net tg) Map.empty (pre @ qs) = Some fa"
  note F = fixed_answers [OF cache_consistent_empty a]
  show "length fa = length pre + length qs" using F by simp
  have "(pre @ qs) ! (length pre + i) = (pre @ qs) ! (length pre + j)"
    using eq by (simp add: nth_append)
  moreover have "length pre + i < length (pre @ qs)" "length pre + j < length (pre @ qs)"
    using i j by simp_all
  ultimately show "fa ! (length pre + i) = fa ! (length pre + j)" using F by metis
qed

lemma ex_rnd_answers:
  "answers rnd_query exRnd exQueries
     = Some [\<lparr>port = 1, phase = 1\<rparr>, \<lparr>port = 1, phase = 0\<rparr>, \<lparr>port = 2, phase = 1\<rparr>,
             \<lparr>port = 1, phase = 1\<rparr>]"
  by code_simp

lemma ex_cap_answers:
  "answers cap_query (exCap, exNet) exQueries
     = Some [\<lparr>port = 1, phase = 1\<rparr>, \<lparr>port = 1, phase = 0\<rparr>, \<lparr>port = 2, phase = 1\<rparr>,
             \<lparr>port = 1, phase = 1\<rparr>]"
  by code_simp

lemma ex_fixed_answers:
  "answers (fixed_query exDsp exParams exNet (TemporalGraph_new (net_topology exNet)))
       Map.empty ([(1, 1, 0)] @ exQueries)
     = Some [\<lparr>port = 2, phase = 0\<rparr>,
             \<lparr>port = 0, phase = 1\<rparr>, \<lparr>port = 0, phase = 0\<rparr>, \<lparr>port = 2, phase = 1\<rparr>,
             \<lparr>port = 0, phase = 1\<rparr>]"
  by code_simp

text \<open>
  In the three-port example the window asks for \<open>(0, 0, 0)\<close> first and last, with two other
  queries in between (and, for the fixed variant, one query before the window): every
  variant answers, and gives the first and the last query the same choice.
\<close>

theorem choice_deterministic_in_window_witness:
  "exQueries ! 0 = exQueries ! 3
   \<and> answers rnd_query exRnd exQueries
       = Some [\<lparr>port = 1, phase = 1\<rparr>, \<lparr>port = 1, phase = 0\<rparr>, \<lparr>port = 2, phase = 1\<rparr>,
               \<lparr>port = 1, phase = 1\<rparr>]
   \<and> [\<lparr>port = 1, phase = 1\<rparr>, \<lparr>port = 1, phase = 0\<rparr>, \<lparr>port = 2, phase = 1\<rparr>,
       \<lparr>port = 1, phase = 1\<rparr>] ! 0
     = [\<lparr>port = 1, phase = 1\<rparr>, \<lparr>port = 1, phase = 0\<rparr>, \<lparr>port = 2, phase = 1\<rparr>,
        \<lparr>port = 1, phase = 1\<rparr>] ! 3
   \<and> answers cap_query (exCap, exNet) exQueries
       = Some [\<lparr>port = 1, phase = 1\<rparr>, \<lparr>port = 1, phase = 0\<rparr>, \<lparr>port = 2, phase = 1\<rparr>,
               \<lparr>port = 1, phase = 1\<rparr>]
   \<and> answers (fixed_query exDsp exParams exNet (TemporalGraph_new (net_topology exNet)))
       Map.empty ([(1, 1, 0)] @ exQueries)
       = Some [\<lparr>port = 2, phase = 0\<rparr>,
               \<lparr>port = 0, phase = 1\<rparr>, \<lparr>port = 0, phase = 0\<rparr>, \<lparr>port = 2, phase = 1\<rparr>,
               \<lparr>port = 0, phase = 1\<rparr>]
   \<and> [\<lparr>port = 2, phase = 0\<rparr>,
       \<lparr>port = 0, phase = 1\<rparr>, \<lparr>port = 0, phase = 0\<rparr>, \<lparr>port = 2, phase = 1\<rparr>,
       \<lparr>port = 0, phase = 1\<rparr>] ! (length [(1 :: nat, 1 :: nat, 0 :: nat)] + 0)
     = [\<lparr>port = 2, phase = 0\<rparr>,
        \<lparr>port = 0, phase = 1\<rparr>, \<lparr>port = 0, phase = 0\<rparr>, \<lparr>port = 2, phase = 1\<rparr>,
        \<lparr>port = 0, phase = 1\<rparr>] ! (length [(1 :: nat, 1 :: nat, 0 :: nat)] + 3)"
proof -
  have i: "0 < length exQueries" and j: "3 < length exQueries"
    and eq: "exQueries ! 0 = exQueries ! 3"
    by (simp_all add: exQueries_def)
  note T = choice_deterministic_in_window [OF i j eq]
  from T [where rst = exRnd] ex_rnd_answers
  have 1: "[\<lparr>port = 1, phase = 1\<rparr>, \<lparr>port = 1, phase = 0\<rparr>, \<lparr>port = 2, phase = 1\<rparr>,
       \<lparr>port = 1, phase = 1\<rparr>] ! 0
     = [\<lparr>port = 1, phase = 1\<rparr>, \<lparr>port = 1, phase = 0\<rparr>, \<lparr>port = 2, phase = 1\<rparr>,
        \<lparr>port = 1, phase = 1\<rparr>] ! 3"
    by blast
  from T [where dsp = exDsp and params = exParams and net = exNet
      and tg = "TemporalGraph_new (net_topology exNet)" and pre = "[(1, 1, 0)]"] ex_fixed_answers
  have 2: "[\<lparr>port = 2, phase = 0\<rparr>,
       \<lparr>port = 0, phase = 1\<rparr>, \<lparr>port = 0, phase = 0\<rparr>, \<lparr>port = 2, phase = 1\<rparr>,
       \<lparr>port = 0, phase = 1\<rparr>] ! (length [(1 :: nat, 1 :: nat, 0 :: nat)] + 0)
     = [\<lparr>port = 2, phase = 0\<rparr>,
        \<lparr>port = 0, phase = 1\<rparr>, \<lparr>port = 0, phase = 0\<rparr>, \<lparr>port = 2, phase = 1\<rparr>,
        \<lparr>port = 0, phase = 1\<rparr>] ! (length [(1 :: nat, 1 :: nat, 0 :: nat)] + 3)"
    by blast
  show ?thesis using eq ex_rnd_answers ex_cap_answers ex_fixed_answers 1 2 by blast
qed

end
